theory Spec2Isabelle
  imports Main "HOL-Library.AList" "HOL-Library.Char_ord" "HOL-Library.List_Lexorder"
    "HOL-Library.Product_Lexorder"
begin

section \<open>Data model\<close>

text \<open>
  \<^verbatim>\<open>event_class.Event\<close>: a plain object with six fields.  Python integers are unbounded,
  so every numeric field is an \<^typ>\<open>int\<close>; nothing in the class restricts their sign.
\<close>

record Event =
  name :: string
  duration :: int
  dependencies :: "string list"
  resources_required :: int
  priority :: int
  deadline :: int

text \<open>
  \<^verbatim>\<open>Event.__init__\<close>: \<^verbatim>\<open>dependencies\<close> is optional, and \<^verbatim>\<open>None\<close> (like the empty
  list) is stored as the empty list.
\<close>

definition new_event ::
  "string \<Rightarrow> int \<Rightarrow> string list option \<Rightarrow> int \<Rightarrow> int \<Rightarrow> int \<Rightarrow> Event" where
  "new_event n d deps r p dl =
     \<lparr>name = n, duration = d,
      dependencies = (case deps of None \<Rightarrow> [] | Some ds \<Rightarrow> ds),
      resources_required = r, priority = p, deadline = dl\<rparr>"

text \<open>
  \<^verbatim>\<open>EventScheduler\<close>: the two dictionaries keep insertion order (iteration over a Python
  \<^verbatim>\<open>dict\<close> follows it), so each is an association list; \<^const>\<open>AList.update\<close> replaces the
  value of an existing key in place and appends a new key at the end, as assignment to a
  \<^verbatim>\<open>dict\<close> entry does.
\<close>

record EventScheduler =
  total_resources :: int
  events :: "(string \<times> Event) list"
  schedule :: "(string \<times> int \<times> int) list"

datatype error = ValueError string | KeyError string

definition init :: "int \<Rightarrow> EventScheduler" where
  "init n = \<lparr>total_resources = n, events = [], schedule = []\<rparr>"

definition add_event :: "EventScheduler \<Rightarrow> Event \<Rightarrow> EventScheduler" where
  "add_event s event = s\<lparr>events := AList.update (name event) event (events s)\<rparr>"

definition remove_event :: "EventScheduler \<Rightarrow> string \<Rightarrow> EventScheduler \<times> bool" where
  "remove_event s event_name =
     (if map_of (events s) event_name \<noteq> None
      then (s\<lparr>events := AList.delete event_name (events s),
               schedule := AList.delete event_name (schedule s)\<rparr>, True)
      else (s, False))"

text \<open>
  \<^verbatim>\<open>modify_event\<close>: the keyword arguments that are present overwrite the fields of the
  registered event; the name, and with it the key, never changes.
\<close>

definition modify_event ::
  "EventScheduler \<Rightarrow> string \<Rightarrow> int option \<Rightarrow> string list option \<Rightarrow> int option \<Rightarrow> int option
    \<Rightarrow> int option \<Rightarrow> EventScheduler \<times> bool" where
  "modify_event s event_name new_duration new_dependencies new_resources new_priority new_deadline =
     (case map_of (events s) event_name of
        None \<Rightarrow> (s, False)
      | Some event \<Rightarrow>
          (let e1 = (case new_duration of None \<Rightarrow> event | Some d \<Rightarrow> event\<lparr>duration := d\<rparr>);
               e2 = (case new_dependencies of None \<Rightarrow> e1 | Some ds \<Rightarrow> e1\<lparr>dependencies := ds\<rparr>);
               e3 = (case new_resources of None \<Rightarrow> e2 | Some r \<Rightarrow> e2\<lparr>resources_required := r\<rparr>);
               e4 = (case new_priority of None \<Rightarrow> e3 | Some p \<Rightarrow> e3\<lparr>priority := p\<rparr>);
               e5 = (case new_deadline of None \<Rightarrow> e4 | Some dl \<Rightarrow> e4\<lparr>deadline := dl\<rparr>)
           in (s\<lparr>events := AList.update event_name e5 (events s)\<rparr>, True)))"

section \<open>Priority queues\<close>

text \<open>
  \<^verbatim>\<open>heapq\<close> is the standard library's binary min-heap on a Python list.  The scheduler
  only pushes, pops the least item, reads \<^verbatim>\<open>h[0]\<close> (the least item) and tests emptiness, so
  a heap is modelled by the ascending list of its items: \<^verbatim>\<open>heappush\<close> inserts in order,
  \<^verbatim>\<open>heappop\<close> splits off the head, and \<^verbatim>\<open>h[0]\<close> is the head.  Tuples compare
  lexicographically and strings by code point, which is the order of the product and list
  instances imported above.
\<close>

definition heappush :: "'a::linorder list \<Rightarrow> 'a \<Rightarrow> 'a list" where
  "heappush h x = insort x h"

text \<open>
  Every \<^verbatim>\<open>heappop\<close> of the source sits in a loop guarded by the heap being non-empty; the
  loops below match the heap against \<open>[]\<close> (the guard fails) and \<open>x # h\<close> (pop \<open>x\<close>, leaving
  \<open>h\<close>).
\<close>

section \<open>Topological sort\<close>

text \<open>
  The message of the \<^verbatim>\<open>ValueError\<close> raised for a dependency that is not registered:
  \<^verbatim>\<open>f"Event '{event_name}' depends on unknown event '{dependency}'"\<close>.
\<close>

definition unknown_msg :: "string \<Rightarrow> string \<Rightarrow> string" where
  "unknown_msg event_name dependency =
     ''Event '' @ [CHR 0x27] @ event_name @ [CHR 0x27] @ '' depends on unknown event ''
       @ [CHR 0x27] @ dependency @ [CHR 0x27]"

definition cycle_msg :: string where
  "cycle_msg = ''Cycle detected in task dependencies!''"

text \<open>
  \<^verbatim>\<open>in_degree\<close> and \<^verbatim>\<open>adj_list\<close> are \<^verbatim>\<open>defaultdict\<close>s that are only read and written by
  key, never iterated: total functions with the default value everywhere at the start.
\<close>

type_synonym graph = "(string \<Rightarrow> int) \<times> (string \<Rightarrow> string list)"

text \<open>The inner loop \<^verbatim>\<open>for dependency in event.dependencies\<close> of the graph construction.\<close>

fun add_dependencies ::
  "(string \<times> Event) list \<Rightarrow> string \<Rightarrow> string list \<Rightarrow> graph \<Rightarrow> error + graph" where
  "add_dependencies evs event_name [] g = Inr g"
| "add_dependencies evs event_name (dependency # rest) (in_degree, adj_list) =
     (if map_of evs dependency = None
      then Inl (ValueError (unknown_msg event_name dependency))
      else add_dependencies evs event_name rest
             (in_degree(event_name := in_degree event_name + 1),
              adj_list(dependency := adj_list dependency @ [event_name])))"

text \<open>The outer loop \<^verbatim>\<open>for event_name, event in self.events.items()\<close>.\<close>

fun build_graph :: "(string \<times> Event) list \<Rightarrow> (string \<times> Event) list \<Rightarrow> graph \<Rightarrow> error + graph" where
  "build_graph evs [] g = Inr g"
| "build_graph evs ((event_name, event) # rest) g =
     (case add_dependencies evs event_name (dependencies event) g of
        Inl e \<Rightarrow> Inl e
      | Inr g' \<Rightarrow> build_graph evs rest g')"

text \<open>
  \<^verbatim>\<open>sorted(names, key=lambda n: (self.events[n].priority, n))\<close>: the keys are computed
  first, in list order (a name that is not registered raises \<^verbatim>\<open>KeyError\<close> there), then
  the names are sorted by key; the sort is stable.
\<close>

fun priority_keys :: "(string \<times> Event) list \<Rightarrow> string list \<Rightarrow> error + ((int \<times> string) \<times> string) list" where
  "priority_keys evs [] = Inr []"
| "priority_keys evs (n # ns) =
     (case map_of evs n of
        None \<Rightarrow> Inl (KeyError n)
      | Some event \<Rightarrow>
          (case priority_keys evs ns of
             Inl e \<Rightarrow> Inl e
           | Inr ks \<Rightarrow> Inr (((priority event, n), n) # ks)))"

definition sorted_by_priority :: "(string \<times> Event) list \<Rightarrow> string list \<Rightarrow> error + string list" where
  "sorted_by_priority evs ns =
     (case priority_keys evs ns of
        Inl e \<Rightarrow> Inl e
      | Inr ks \<Rightarrow> Inr (map snd (sort_key fst ks)))"

text \<open>
  \<^verbatim>\<open>for neighbor in ...: heapq.heappush(ready_heap, (self.events[neighbor].priority, neighbor))\<close>
\<close>

fun push_ready ::
  "(string \<times> Event) list \<Rightarrow> string list \<Rightarrow> (int \<times> string) list \<Rightarrow> error + (int \<times> string) list" where
  "push_ready evs [] ready_heap = Inr ready_heap"
| "push_ready evs (neighbor # rest) ready_heap =
     (case map_of evs neighbor of
        None \<Rightarrow> Inl (KeyError neighbor)
      | Some event \<Rightarrow> push_ready evs rest (heappush ready_heap (priority event, neighbor)))"

text \<open>The inner \<^verbatim>\<open>while ready_heap\<close> loop, which pops every item into \<^verbatim>\<open>current_level\<close>.\<close>

fun drain :: "(int \<times> string) list \<Rightarrow> string list \<Rightarrow> string list" where
  "drain [] current_level = current_level"
| "drain ((_, current) # ready_heap) current_level = drain ready_heap (current_level @ [current])"

text \<open>\<^verbatim>\<open>for neighbor in adj_list[current]\<close>: decrement, and collect a neighbour reaching zero.\<close>

fun visit_neighbors ::
  "string list \<Rightarrow> (string \<Rightarrow> int) \<times> string list \<Rightarrow> (string \<Rightarrow> int) \<times> string list" where
  "visit_neighbors [] (in_degree, newly_ready) = (in_degree, newly_ready)"
| "visit_neighbors (neighbor # rest) (in_degree, newly_ready) =
     (let in_degree' = in_degree(neighbor := in_degree neighbor - 1)
      in visit_neighbors rest
           (in_degree', if in_degree' neighbor = 0 then newly_ready @ [neighbor] else newly_ready))"

text \<open>\<^verbatim>\<open>for current in current_level\<close>.\<close>

fun process_level ::
  "(string \<Rightarrow> string list) \<Rightarrow> string list \<Rightarrow> string list \<times> (string \<Rightarrow> int) \<times> string list
    \<Rightarrow> string list \<times> (string \<Rightarrow> int) \<times> string list" where
  "process_level adj_list [] st = st"
| "process_level adj_list (current # rest) (sorted_order, in_degree, newly_ready) =
     (case visit_neighbors (adj_list current) (in_degree, newly_ready) of
        (in_degree', newly_ready') \<Rightarrow>
          process_level adj_list rest (sorted_order @ [current], in_degree', newly_ready'))"

text \<open>
  One pass of the outer \<^verbatim>\<open>while ready_heap\<close> loop, on a non-empty heap: the result is the new
  heap, the extended order and the updated in-degrees.
\<close>

definition topo_round ::
  "(string \<times> Event) list \<Rightarrow> (string \<Rightarrow> string list)
    \<Rightarrow> (int \<times> string) list \<times> string list \<times> (string \<Rightarrow> int)
    \<Rightarrow> error + ((int \<times> string) list \<times> string list \<times> (string \<Rightarrow> int))" where
  "topo_round evs adj_list st =
     (case st of (ready_heap, sorted_order, in_degree) \<Rightarrow>
        (case sorted_by_priority evs (drain ready_heap []) of
           Inl e \<Rightarrow> Inl e
         | Inr current_level \<Rightarrow>
             (case process_level adj_list current_level (sorted_order, in_degree, []) of
                (sorted_order', in_degree', newly_ready) \<Rightarrow>
                  (case sorted_by_priority evs newly_ready of
                     Inl e \<Rightarrow> Inl e
                   | Inr ns \<Rightarrow>
                       (case push_ready evs ns [] of
                          Inl e \<Rightarrow> Inl e
                        | Inr ready_heap' \<Rightarrow> Inr (ready_heap', sorted_order', in_degree'))))))"

text \<open>
  Facts about one round, needed to see that the outer loop terminates: a round never
  raises an in-degree, and every name it puts on the heap is a registered task whose
  in-degree went from positive to zero.
\<close>

lemma visit_neighbors_append:
  "visit_neighbors (xs @ ys) st = visit_neighbors ys (visit_neighbors xs st)"
  by (induction xs st rule: visit_neighbors.induct) (simp_all add: Let_def)

lemma process_level_eq:
  "process_level adj_list cl (so, D, nr) = (so @ cl, visit_neighbors (concat (map adj_list cl)) (D, nr))"
proof (induction cl arbitrary: so D nr)
  case Nil
  then show ?case by simp
next
  case (Cons c cl)
  obtain D' nr' where v: "visit_neighbors (adj_list c) (D, nr) = (D', nr')" by force
  show ?case using Cons.IH [of "so @ [c]" D' nr'] v
    by (simp add: visit_neighbors_append)
qed

lemma visit_neighbors_fst:
  "fst (visit_neighbors ns (D, nr)) = (\<lambda>m. D m - int (count_list ns m))"
  by (induction ns arbitrary: D nr) (auto simp: Let_def fun_eq_iff)

lemma visit_neighbors_set:
  "set (snd (visit_neighbors ns (D, nr))) = set nr \<union> {m. 1 \<le> D m \<and> D m \<le> int (count_list ns m)}"
proof (induction ns arbitrary: D nr)
  case Nil
  then show ?case by auto
next
  case (Cons n ns)
  let ?D = "D(n := D n - 1)"
  let ?nr = "if ?D n = 0 then nr @ [n] else nr"
  have "set (snd (visit_neighbors (n # ns) (D, nr))) = set (snd (visit_neighbors ns (?D, ?nr)))"
    by (simp add: Let_def)
  also have "\<dots> = set ?nr \<union> {m. 1 \<le> ?D m \<and> ?D m \<le> int (count_list ns m)}"
    by (rule Cons.IH)
  also have "\<dots> = set nr \<union> {m. 1 \<le> D m \<and> D m \<le> int (count_list (n # ns) m)}"
    by auto
  finally show ?case .
qed

lemma visit_neighbors_distinct:
  "distinct nr \<Longrightarrow> \<forall>m\<in>set nr. D m \<le> 0 \<Longrightarrow> distinct (snd (visit_neighbors ns (D, nr)))"
proof (induction ns arbitrary: D nr)
  case Nil
  then show ?case by simp
next
  case (Cons n ns)
  let ?D = "D(n := D n - 1)"
  let ?nr = "if ?D n = 0 then nr @ [n] else nr"
  have "distinct ?nr" using Cons.prems by auto
  moreover have "\<forall>m\<in>set ?nr. ?D m \<le> 0" using Cons.prems by auto
  ultimately have "distinct (snd (visit_neighbors ns (?D, ?nr)))" by (rule Cons.IH)
  then show ?case by (simp add: Let_def)
qed


text \<open>The sort key \<^verbatim>\<open>(self.events[n].priority, n)\<close> of a registered name.\<close>

definition prio_of :: "(string \<times> Event) list \<Rightarrow> string \<Rightarrow> int" where
  "prio_of evs n = (case map_of evs n of Some e \<Rightarrow> priority e | None \<Rightarrow> 0)"

definition pkey :: "(string \<times> Event) list \<Rightarrow> string \<Rightarrow> int \<times> string" where
  "pkey evs n = (prio_of evs n, n)"

lemma drain_eq: "drain h cl = cl @ map snd h"
  by (induction h cl rule: drain.induct) simp_all

lemma priority_keys_registered:
  "\<forall>n\<in>set ns. map_of evs n \<noteq> None \<Longrightarrow>
   priority_keys evs ns = Inr (map (\<lambda>n. (pkey evs n, n)) ns)"
  by (induction ns) (auto simp: pkey_def prio_of_def)

lemma priority_keys_InrD:
  "priority_keys evs ns = Inr ks \<Longrightarrow> \<forall>n\<in>set ns. map_of evs n \<noteq> None"
  by (induction ns arbitrary: ks) (auto split: option.splits sum.splits)

lemma priority_keys_Inr:
  "priority_keys evs ns = Inr ks \<longleftrightarrow>
     (\<forall>n\<in>set ns. map_of evs n \<noteq> None) \<and> ks = map (\<lambda>n. (pkey evs n, n)) ns"
  using priority_keys_registered [of ns evs] priority_keys_InrD [of evs ns ks] by auto

lemma insort_key_fst_map:
  "insort_key fst (k x, x) (map (\<lambda>n. (k n, n)) xs) = map (\<lambda>n. (k n, n)) (insort_key k x xs)"
  by (induction xs) simp_all

lemma sort_key_fst_map:
  "sort_key fst (map (\<lambda>n. (k n, n)) xs) = map (\<lambda>n. (k n, n)) (sort_key k xs)"
  by (induction xs) (simp_all add: insort_key_fst_map)

lemma sorted_by_priority_Inr:
  "sorted_by_priority evs ns = Inr xs \<longleftrightarrow>
     (\<forall>n\<in>set ns. map_of evs n \<noteq> None) \<and> xs = sort_key (pkey evs) ns"
proof -
  have *: "map snd (sort_key fst (map (\<lambda>n. (pkey evs n, n)) ns)) = sort_key (pkey evs) ns"
    by (simp add: sort_key_fst_map o_def)
  show ?thesis
  proof (cases "\<forall>n\<in>set ns. map_of evs n \<noteq> None")
    case True
    then show ?thesis
      using * by (auto simp: sorted_by_priority_def priority_keys_registered)
  next
    case False
    then have "\<And>ks. priority_keys evs ns \<noteq> Inr ks"
      using priority_keys_InrD by blast
    with False show ?thesis
      by (auto simp: sorted_by_priority_def split: sum.splits)
  qed
qed

lemma push_ready_Inr:
  "push_ready evs ns h = Inr h' \<longleftrightarrow>
     (\<forall>n\<in>set ns. map_of evs n \<noteq> None) \<and> h' = foldl heappush h (map (pkey evs) ns)"
  by (induction ns arbitrary: h)
     (auto simp: pkey_def prio_of_def split: option.splits)

lemma set_foldl_heappush: "set (foldl heappush h xs) = set h \<union> set xs"
  by (induction xs arbitrary: h) (auto simp: heappush_def set_insort_key)

lemma sorted_foldl_heappush: "sorted h \<Longrightarrow> sorted (foldl heappush h xs)"
  by (induction xs arbitrary: h) (auto simp: heappush_def sorted_insort)

lemma topo_round_Inr:
  assumes "topo_round evs adj_list (H, so, D) = Inr (H', so', D')"
  defines "cl \<equiv> sort_key (pkey evs) (map snd H)"
  defines "v \<equiv> visit_neighbors (concat (map adj_list cl)) (D, [])"
  shows "so' = so @ cl" and "D' = fst v"
    and "\<forall>n\<in>set (map snd H). map_of evs n \<noteq> None"
    and "\<forall>n\<in>set (snd v). map_of evs n \<noteq> None"
    and "H' = foldl heappush [] (map (pkey evs) (sort_key (pkey evs) (snd v)))"
proof -
  from assms(1) obtain cl0 where 1: "sorted_by_priority evs (drain H []) = Inr cl0"
    unfolding topo_round_def by (auto split: sum.splits)
  then have cl0: "cl0 = cl" and reg: "\<forall>n\<in>set (map snd H). map_of evs n \<noteq> None"
    by (simp_all add: sorted_by_priority_Inr drain_eq cl_def)
  have pl: "process_level adj_list cl (so, D, []) = (so @ cl, fst v, snd v)"
    by (simp add: process_level_eq v_def)
  from assms(1) 1 cl0 pl obtain ns where 2: "sorted_by_priority evs (snd v) = Inr ns"
    unfolding topo_round_def by (auto split: sum.splits prod.splits)
  from assms(1) 1 cl0 pl 2 have 3: "push_ready evs ns [] = Inr H'" and "so' = so @ cl" "D' = fst v"
    unfolding topo_round_def by (auto split: sum.splits prod.splits)
  then show "so' = so @ cl" "D' = fst v" by simp_all
  show "\<forall>n\<in>set (map snd H). map_of evs n \<noteq> None" by (rule reg)
  from 2 show "\<forall>n\<in>set (snd v). map_of evs n \<noteq> None" by (simp add: sorted_by_priority_Inr)
  from 2 3 show "H' = foldl heappush [] (map (pkey evs) (sort_key (pkey evs) (snd v)))"
    by (simp add: sorted_by_priority_Inr push_ready_Inr)
qed

definition pending :: "(string \<times> Event) list \<Rightarrow> (string \<Rightarrow> int) \<Rightarrow> nat" where
  "pending evs D = card {n \<in> fst ` set evs. 0 < D n}"

lemma topo_round_measure:
  assumes "topo_round evs adj_list (H, so, D) = Inr (H', so', D')"
  shows "pending evs D' \<le> pending evs D" and "H' \<noteq> [] \<Longrightarrow> pending evs D' < pending evs D"
proof -
  let ?cl = "sort_key (pkey evs) (map snd H)"
  let ?ns = "concat (map adj_list ?cl)"
  let ?v = "visit_neighbors ?ns (D, [])"
  note r = topo_round_Inr [OF assms]
  have D': "D' = (\<lambda>m. D m - int (count_list ?ns m))"
    using r(2) by (simp add: visit_neighbors_fst)
  have fin: "finite {n \<in> fst ` set evs. 0 < D n}" by simp
  have sub: "{n \<in> fst ` set evs. 0 < D' n} \<subseteq> {n \<in> fst ` set evs. 0 < D n}"
    using D' by auto
  show "pending evs D' \<le> pending evs D"
    unfolding pending_def by (rule card_mono [OF fin sub])
  assume "H' \<noteq> []"
  with r(5) have "snd ?v \<noteq> []" by auto
  then obtain m where m: "m \<in> set (snd ?v)" by (cases "snd ?v") auto
  with r(4) have "map_of evs m \<noteq> None" by blast
  then have reg: "m \<in> fst ` set evs" by (metis domIff dom_map_of_conv_image_fst)
  from m have "1 \<le> D m \<and> D m \<le> int (count_list ?ns m)"
    by (simp add: visit_neighbors_set)
  with reg D' have "m \<in> {n \<in> fst ` set evs. 0 < D n}" "m \<notin> {n \<in> fst ` set evs. 0 < D' n}"
    by auto
  with sub have "{n \<in> fst ` set evs. 0 < D' n} \<subset> {n \<in> fst ` set evs. 0 < D n}" by blast
  then show "pending evs D' < pending evs D"
    unfolding pending_def by (rule psubset_card_mono [OF fin])
qed

definition topo_measure ::
  "((string \<times> Event) list \<times> (string \<Rightarrow> string list) \<times> (int \<times> string) list \<times> string list \<times> (string \<Rightarrow> int)) \<Rightarrow> nat" where
  "topo_measure = (\<lambda>(evs, adj_list, ready_heap, sorted_order, in_degree).
          2 * pending evs in_degree + (if ready_heap = [] then 0 else 1))"

lemma topo_round_decreases:
  assumes "H \<noteq> []" and "topo_round evs adj_list (H, so, D) = Inr st'"
  shows "((evs, adj_list, st'), (evs, adj_list, H, so, D)) \<in> measure topo_measure"
proof -
  obtain H' so' D' where st': "st' = (H', so', D')" by (cases st')
  from topo_round_measure [OF assms(2) [unfolded st']] assms(1) st'
  show ?thesis by (cases "H' = []") (auto simp: topo_measure_def)
qed

text \<open>
  The outer \<^verbatim>\<open>while ready_heap\<close> loop.  When the heap is empty the loop ends and the
  order built so far is what the length check after the loop sees.
\<close>

function topo_loop ::
  "(string \<times> Event) list \<Rightarrow> (string \<Rightarrow> string list)
    \<Rightarrow> (int \<times> string) list \<times> string list \<times> (string \<Rightarrow> int) \<Rightarrow> error + string list" where
  "topo_loop evs adj_list (ready_heap, sorted_order, in_degree) =
     (if ready_heap = [] then Inr sorted_order
      else (case topo_round evs adj_list (ready_heap, sorted_order, in_degree) of
              Inl e \<Rightarrow> Inl e
            | Inr st' \<Rightarrow> topo_loop evs adj_list st'))"
  by pat_completeness auto
termination
  by (relation "measure topo_measure") (simp, rule topo_round_decreases)

text \<open>
  \<^verbatim>\<open>topological_sort\<close>: build the graph, seed the heap with the names of in-degree zero
  (iterating \<^verbatim>\<open>self.events\<close> and looking each name up again gives the items in
  insertion order), run the loop and compare lengths.  The method does not write to
  \<^verbatim>\<open>self\<close>.
\<close>

definition topological_sort :: "EventScheduler \<Rightarrow> error + string list" where
  "topological_sort s =
     (case build_graph (events s) (events s) (\<lambda>_. 0, \<lambda>_. []) of
        Inl e \<Rightarrow> Inl e
      | Inr (in_degree, adj_list) \<Rightarrow>
          (let ready_nodes = sort [(priority event, event_name). (event_name, event) \<leftarrow> events s, in_degree event_name = 0];
               ready_heap = foldl heappush [] ready_nodes
           in case topo_loop (events s) adj_list (ready_heap, [], in_degree) of
                Inl e \<Rightarrow> Inl e
              | Inr sorted_order \<Rightarrow>
                  if length sorted_order \<noteq> length (events s)
                  then Inl (ValueError cycle_msg)
                  else Inr sorted_order))"

section \<open>Resource-constrained scheduling\<close>

text \<open>
  The mutable state of one run of \<^verbatim>\<open>schedule_events\<close>: the schedule being filled in
  (\<^verbatim>\<open>self.schedule\<close>) and the local variables of the simulation.
\<close>

record sim_state =
  sched :: "(string \<times> int \<times> int) list"
  scheduled :: "string set"
  ready_queue :: "(int \<times> string) list"
  waiting :: "(string \<times> string set) list"
  current_time :: int
  active_resources :: int
  active_events :: "(int \<times> string \<times> int) list"

text \<open>
  \<^verbatim>\<open>for event_name in sorted_events\<close>: a task without dependencies goes on the ready heap,
  any other into \<^verbatim>\<open>waiting\<close> with the set of its dependencies.
\<close>

fun partition_events ::
  "(string \<times> Event) list \<Rightarrow> string list \<Rightarrow> (int \<times> string) list \<times> (string \<times> string set) list
    \<Rightarrow> error + ((int \<times> string) list \<times> (string \<times> string set) list)" where
  "partition_events evs [] (rq, wt) = Inr (rq, wt)"
| "partition_events evs (event_name # rest) (rq, wt) =
     (case map_of evs event_name of
        None \<Rightarrow> Inl (KeyError event_name)
      | Some event \<Rightarrow>
          if dependencies event = []
          then partition_events evs rest (heappush rq (priority event, event_name), wt)
          else partition_events evs rest
                 (rq, AList.update event_name (set (dependencies event)) wt))"

text \<open>
  \<^verbatim>\<open>for event_name in list(waiting.keys())\<close>, run when \<^verbatim>\<open>completed_name\<close> retires: the keys
  are a snapshot, the dictionary is updated and deleted from while they are visited.
\<close>

fun release ::
  "(string \<times> Event) list \<Rightarrow> string \<Rightarrow> string list
    \<Rightarrow> (string \<times> string set) list \<times> (int \<times> string) list
    \<Rightarrow> error + ((string \<times> string set) list \<times> (int \<times> string) list)" where
  "release evs completed_name [] (wt, rq) = Inr (wt, rq)"
| "release evs completed_name (event_name # rest) (wt, rq) =
     (case map_of wt event_name of
        None \<Rightarrow> Inl (KeyError event_name)
      | Some deps \<Rightarrow>
          if completed_name \<in> deps
          then (let deps' = deps - {completed_name};
                    wt' = AList.update event_name deps' wt
                in if deps' = {}
                   then (case map_of evs event_name of
                           None \<Rightarrow> Inl (KeyError event_name)
                         | Some event \<Rightarrow>
                             release evs completed_name rest
                               (AList.delete event_name wt',
                                heappush rq (priority event, event_name)))
                   else release evs completed_name rest (wt', rq))
          else release evs completed_name rest (wt, rq))"

text \<open>
  \<^verbatim>\<open>while active_events and active_events[0][0] == current_time\<close>: pop the head, free its
  resources, mark it complete and release the tasks that waited for it.
\<close>

fun retire ::
  "(string \<times> Event) list \<Rightarrow> int \<Rightarrow> (int \<times> string \<times> int) list
    \<Rightarrow> int \<times> string set \<times> (string \<times> string set) list \<times> (int \<times> string) list
    \<Rightarrow> error + ((int \<times> string \<times> int) list \<times> int \<times> string set
          \<times> (string \<times> string set) list \<times> (int \<times> string) list)" where
  "retire evs ct [] (ar, fin, wt, rq) = Inr ([], ar, fin, wt, rq)"
| "retire evs ct ((end_time, completed_name, resources_used) # active) (ar, fin, wt, rq) =
     (if end_time = ct
      then (case release evs completed_name (map fst wt) (wt, rq) of
              Inl e \<Rightarrow> Inl e
            | Inr (wt', rq') \<Rightarrow>
                retire evs ct active (ar - resources_used, insert completed_name fin, wt', rq'))
      else Inr ((end_time, completed_name, resources_used) # active, ar, fin, wt, rq))"

text \<open>
  \<^verbatim>\<open>[self.schedule[dep][1] for dep in event.dependencies]\<close>; a dependency without a
  schedule entry raises \<^verbatim>\<open>KeyError\<close>.
\<close>

fun dep_end_times :: "(string \<times> int \<times> int) list \<Rightarrow> string list \<Rightarrow> error + int list" where
  "dep_end_times sch [] = Inr []"
| "dep_end_times sch (dep # rest) =
     (case map_of sch dep of
        None \<Rightarrow> Inl (KeyError dep)
      | Some (_, end_time) \<Rightarrow>
          (case dep_end_times sch rest of
             Inl e \<Rightarrow> Inl e
           | Inr ts \<Rightarrow> Inr (end_time # ts)))"

text \<open>
  The start time: \<^verbatim>\<open>current_time\<close>, raised to the latest end time of the dependencies when
  there are any (\<^verbatim>\<open>max\<close> of an empty list would raise \<^verbatim>\<open>ValueError\<close>).
\<close>

definition start_time_of :: "(string \<times> int \<times> int) list \<Rightarrow> int \<Rightarrow> string list \<Rightarrow> error + int" where
  "start_time_of sch ct deps =
     (if deps = [] then Inr ct
      else (case dep_end_times sch deps of
              Inl e \<Rightarrow> Inl e
            | Inr [] \<Rightarrow> Inl (ValueError ''max() arg is an empty sequence'')
            | Inr (t # ts) \<Rightarrow> Inr (max ct (fold max ts t))))"

text \<open>
  The admission pass \<^verbatim>\<open>while ready_queue\<close>: pop in \<open>(priority, name)\<close> order; a task that
  fits is scheduled and becomes active, any other is put on \<^verbatim>\<open>temp_queue\<close>.  An exception
  leaves \<^verbatim>\<open>self.schedule\<close> as it is at that moment, so the error carries the schedule.
\<close>

fun admit ::
  "(string \<times> Event) list \<Rightarrow> int \<Rightarrow> int \<Rightarrow> (int \<times> string) list
    \<Rightarrow> (string \<times> int \<times> int) list \<times> int \<times> (int \<times> string \<times> int) list \<times> (int \<times> string) list \<times> bool
    \<Rightarrow> (error \<times> (string \<times> int \<times> int) list)
        + ((string \<times> int \<times> int) list \<times> int \<times> (int \<times> string \<times> int) list \<times> (int \<times> string) list \<times> bool)" where
  "admit evs cap ct [] st = Inr st"
| "admit evs cap ct ((prio, event_name) # rq) (sch, ar, active, temp_queue, scheduled_this_round) =
     (case map_of evs event_name of
        None \<Rightarrow> Inl (KeyError event_name, sch)
      | Some event \<Rightarrow>
          if ar + resources_required event \<le> cap
          then (case start_time_of sch ct (dependencies event) of
                  Inl e \<Rightarrow> Inl (e, sch)
                | Inr start_time \<Rightarrow>
                    (let end_time = start_time + duration event
                     in admit evs cap ct rq
                          (AList.update event_name (start_time, end_time) sch,
                           ar + resources_required event,
                           heappush active (end_time, event_name, resources_required event),
                           temp_queue, True)))
          else admit evs cap ct rq
                 (sch, ar, active, temp_queue @ [(prio, event_name)], scheduled_this_round))"

text \<open>
  One pass of the simulation loop: retire, admit, push the deferred items back on the (now
  empty) ready heap, then advance the time to the next completion, or ask for the
  \<^verbatim>\<open>break\<close> when nothing is active, something is ready and nothing was scheduled.
\<close>

definition sim_round ::
  "(string \<times> Event) list \<Rightarrow> int \<Rightarrow> sim_state
    \<Rightarrow> (error \<times> (string \<times> int \<times> int) list) + (sim_state \<times> bool)" where
  "sim_round evs cap st =
     (case retire evs (current_time st) (active_events st)
             (active_resources st, scheduled st, waiting st, ready_queue st) of
        Inl e \<Rightarrow> Inl (e, sched st)
      | Inr (active1, ar1, fin1, wt1, rq1) \<Rightarrow>
          (case admit evs cap (current_time st) rq1 (sched st, ar1, active1, [], False) of
             Inl err \<Rightarrow> Inl err
           | Inr (sch2, ar2, active2, temp_queue, scheduled_this_round) \<Rightarrow>
               (let rq2 = foldl heappush [] temp_queue;
                    st' = \<lparr>sched = sch2, scheduled = fin1, ready_queue = rq2, waiting = wt1,
                           current_time = current_time st, active_resources = ar2,
                           active_events = active2\<rparr>
                in (case active2 of
                      (end_time, _) # _ \<Rightarrow> Inr (st'\<lparr>current_time := end_time\<rparr>, False)
                    | [] \<Rightarrow> Inr (st', rq2 \<noteq> [] \<and> \<not> scheduled_this_round)))))"

text \<open>
  \<^verbatim>\<open>while ready_queue or active_events or waiting\<close>.  Nothing in the loop itself bounds the
  number of passes, so the loop is a partial function: \<open>None\<close> stands for a run that never
  returns.
\<close>

partial_function (option) sim_loop ::
  "(string \<times> Event) list \<Rightarrow> int \<Rightarrow> sim_state
    \<Rightarrow> ((error \<times> (string \<times> int \<times> int) list) + sim_state) option" where
  "sim_loop evs cap st =
     (if ready_queue st = [] \<and> active_events st = [] \<and> waiting st = [] then Some (Inr st)
      else (case sim_round evs cap st of
              Inl err \<Rightarrow> Some (Inl err)
            | Inr (st', stop) \<Rightarrow> if stop then Some (Inr st') else sim_loop evs cap st'))"

declare sim_loop.simps [code]

text \<open>
  \<^verbatim>\<open>schedule_events\<close>: clear the stored schedule, sort, partition, simulate.  The result
  pairs the scheduler after the call with what the call returned or raised.
\<close>

definition schedule_events ::
  "EventScheduler \<Rightarrow> (EventScheduler \<times> (error + (string \<times> int \<times> int) list)) option" where
  "schedule_events s =
     (let s0 = s\<lparr>schedule := []\<rparr>
      in case topological_sort s0 of
           Inl e \<Rightarrow> Some (s0, Inl e)
         | Inr sorted_events \<Rightarrow>
             (case partition_events (events s0) sorted_events ([], []) of
                Inl e \<Rightarrow> Some (s0, Inl e)
              | Inr (rq, wt) \<Rightarrow>
                  (case sim_loop (events s0) (total_resources s0)
                          \<lparr>sched = [], scheduled = {}, ready_queue = rq, waiting = wt,
                           current_time = 0, active_resources = 0, active_events = []\<rparr> of
                     None \<Rightarrow> None
                   | Some (Inl (e, sch)) \<Rightarrow> Some (s0\<lparr>schedule := sch\<rparr>, Inl e)
                   | Some (Inr st) \<Rightarrow> Some (s0\<lparr>schedule := sched st\<rparr>, Inr (sched st)))))"

section \<open>Deadline analysis\<close>

text \<open>
  \<^verbatim>\<open>check_deadlines\<close>: one pass over \<^verbatim>\<open>self.schedule.items()\<close>; the lookup
  \<^verbatim>\<open>self.events[event_name]\<close> raises \<^verbatim>\<open>KeyError\<close> for a name that is not registered.
\<close>

fun check_deadlines_loop ::
  "(string \<times> Event) list \<Rightarrow> (string \<times> int \<times> int) list \<Rightarrow> (string \<times> int \<times> int) list
    \<Rightarrow> error + (string \<times> int \<times> int) list" where
  "check_deadlines_loop evs [] missed = Inr missed"
| "check_deadlines_loop evs ((event_name, (start_time, end_time)) # rest) missed =
     (case map_of evs event_name of
        None \<Rightarrow> Inl (KeyError event_name)
      | Some event \<Rightarrow>
          check_deadlines_loop evs rest
            (if deadline event > 0 \<and> end_time > deadline event
             then missed @ [(event_name, deadline event, end_time)]
             else missed))"

definition check_deadlines :: "EventScheduler \<Rightarrow> error + (string \<times> int \<times> int) list" where
  "check_deadlines s = check_deadlines_loop (events s) (schedule s) []"

section \<open>The registry is a dictionary\<close>

text \<open>
  The keys of \<^verbatim>\<open>self.events\<close> are pairwise distinct: true of the empty registry and kept
  by every operation on it.  The results below assume it of the scheduler they start from.
\<close>

lemma init_distinct: "distinct (map fst (events (init n)))"
  by (simp add: init_def)

lemma add_event_distinct:
  "distinct (map fst (events s)) \<Longrightarrow> distinct (map fst (events (add_event s event)))"
  by (simp add: add_event_def distinct_update)

lemma remove_event_distinct:
  "distinct (map fst (events s)) \<Longrightarrow> distinct (map fst (events (fst (remove_event s n))))"
  by (simp add: remove_event_def distinct_delete)

lemma modify_event_distinct:
  "distinct (map fst (events s)) \<Longrightarrow>
   distinct (map fst (events (fst (modify_event s n d ds r p dl))))"
  by (simp add: modify_event_def distinct_update Let_def split: option.splits)

section \<open>Topological sort: correctness\<close>

definition deps_of :: "(string \<times> Event) list \<Rightarrow> string \<Rightarrow> string list" where
  "deps_of evs n = (case map_of evs n of Some e \<Rightarrow> dependencies e | None \<Rightarrow> [])"

definition resolved :: "(string \<times> Event) list \<Rightarrow> bool" where
  "resolved evs = (\<forall>(n, e)\<in>set evs. \<forall>d\<in>set (dependencies e). map_of evs d \<noteq> None)"

lemma map_of_None_iff: "map_of evs n = None \<longleftrightarrow> n \<notin> fst ` set evs"
  by (simp add: map_of_eq_None_iff)

lemma add_dependencies_ok:
  "\<forall>d\<in>set ds. map_of evs d \<noteq> None \<Longrightarrow>
   add_dependencies evs n ds (D, adj) =
     Inr (D(n := D n + int (length ds)), \<lambda>d. adj d @ replicate (count_list ds d) n)"
proof (induction ds arbitrary: D adj)
  case Nil
  then show ?case by simp
next
  case (Cons d ds)
  then show ?case by (auto simp: fun_eq_iff replicate_append_same)
qed

lemma add_dependencies_fail:
  "\<exists>d\<in>set ds. map_of evs d = None \<Longrightarrow>
   \<exists>d\<in>set ds. map_of evs d = None \<and> add_dependencies evs n ds g = Inl (ValueError (unknown_msg n d))"
proof (induction ds arbitrary: g)
  case Nil
  then show ?case by simp
next
  case (Cons d ds)
  obtain D adj where g: "g = (D, adj)" by (cases g)
  show ?case
  proof (cases "map_of evs d = None")
    case True
    then show ?thesis using g by auto
  next
    case False
    with Cons.prems have "\<exists>d\<in>set ds. map_of evs d = None" by auto
    from Cons.IH [OF this] False g show ?thesis by auto
  qed
qed

definition in_degree_of :: "(string \<times> Event) list \<Rightarrow> string \<Rightarrow> int" where
  "in_degree_of items m = (\<Sum>(k, e)\<leftarrow>items. if k = m then int (length (dependencies e)) else 0)"

definition adj_count :: "(string \<times> Event) list \<Rightarrow> string \<Rightarrow> string \<Rightarrow> nat" where
  "adj_count items d m = (\<Sum>(k, e)\<leftarrow>items. if k = m then count_list (dependencies e) d else 0)"

lemma count_list_replicate: "count_list (replicate k x) y = (if x = y then k else 0)"
  by (induction k) auto

lemma build_graph_ok:
  "\<forall>(n, e)\<in>set items. \<forall>d\<in>set (dependencies e). map_of evs d \<noteq> None \<Longrightarrow>
   \<exists>D' adj'. build_graph evs items (D, adj) = Inr (D', adj')
     \<and> (\<forall>m. D' m = D m + in_degree_of items m)
     \<and> (\<forall>d m. count_list (adj' d) m = count_list (adj d) m + adj_count items d m)"
proof (induction items arbitrary: D adj)
  case Nil
  then show ?case by (simp add: in_degree_of_def adj_count_def)
next
  case (Cons x items)
  obtain n e where x: "x = (n, e)" by (cases x)
  from Cons.prems x have 1: "\<forall>d\<in>set (dependencies e). map_of evs d \<noteq> None"
    and 2: "\<forall>(n, e)\<in>set items. \<forall>d\<in>set (dependencies e). map_of evs d \<noteq> None"
    by auto
  let ?D = "D(n := D n + int (length (dependencies e)))"
  let ?adj = "\<lambda>d. adj d @ replicate (count_list (dependencies e) d) n"
  from Cons.IH [OF 2, of ?D ?adj] obtain D' adj' where
    b: "build_graph evs items (?D, ?adj) = Inr (D', adj')"
    and D': "\<forall>m. D' m = ?D m + in_degree_of items m"
    and adj': "\<forall>d m. count_list (adj' d) m = count_list (?adj d) m + adj_count items d m"
    by blast
  have "build_graph evs (x # items) (D, adj) = Inr (D', adj')"
    using x b add_dependencies_ok [OF 1] by simp
  moreover have "\<forall>m. D' m = D m + in_degree_of (x # items) m"
    using D' x by (simp add: in_degree_of_def)
  moreover have "\<forall>d m. count_list (adj' d) m = count_list (adj d) m + adj_count (x # items) d m"
    using adj' x by (simp add: adj_count_def count_list_replicate)
  ultimately show ?case by blast
qed

lemma build_graph_fail:
  "\<exists>(n, e)\<in>set items. \<exists>d\<in>set (dependencies e). map_of evs d = None \<Longrightarrow>
   \<exists>(n, e)\<in>set items. \<exists>d\<in>set (dependencies e). map_of evs d = None
      \<and> build_graph evs items g = Inl (ValueError (unknown_msg n d))"
proof (induction items arbitrary: g)
  case Nil
  then show ?case by simp
next
  case (Cons x items)
  obtain n e where x: "x = (n, e)" by (cases x)
  obtain D adj where g: "g = (D, adj)" by (cases g)
  show ?case
  proof (cases "\<exists>d\<in>set (dependencies e). map_of evs d = None")
    case True
    from add_dependencies_fail [OF True, of n g] x show ?thesis by auto
  next
    case False
    then have ok: "\<forall>d\<in>set (dependencies e). map_of evs d \<noteq> None" by simp
    from False Cons.prems x
    have "\<exists>(n, e)\<in>set items. \<exists>d\<in>set (dependencies e). map_of evs d = None" by auto
    from Cons.IH [OF this] x g add_dependencies_ok [OF ok, of n D adj]
    show ?thesis by auto
  qed
qed

lemma sum_list_key_distinct:
  "distinct (map fst items) \<Longrightarrow>
   (\<Sum>(k, e)\<leftarrow>items. if k = m then f e else 0) = (case map_of items m of Some e \<Rightarrow> f e | None \<Rightarrow> (0::'a::comm_monoid_add))"
proof (induction items)
  case Nil
  then show ?case by simp
next
  case (Cons x items)
  obtain n e where x: "x = (n, e)" by (cases x)
  show ?case
  proof (cases "n = m")
    case True
    with Cons.prems x have "m \<notin> fst ` set items" by auto
    then have "(\<Sum>(k, e)\<leftarrow>items. if k = m then f e else 0) = 0"
      by (induction items) auto
    with True x show ?thesis by simp
  next
    case False
    with Cons x show ?thesis by simp
  qed
qed

lemma in_degree_of_distinct:
  "distinct (map fst evs) \<Longrightarrow> in_degree_of evs m = int (length (deps_of evs m))"
  unfolding in_degree_of_def deps_of_def
  by (subst sum_list_key_distinct) (auto split: option.splits)

lemma adj_count_distinct:
  "distinct (map fst evs) \<Longrightarrow> adj_count evs d m = count_list (deps_of evs m) d"
  unfolding adj_count_def deps_of_def
  by (subst sum_list_key_distinct) (auto split: option.splits)

definition ready_set :: "(string \<times> Event) list \<Rightarrow> string set \<Rightarrow> string set" where
  "ready_set evs S = {n \<in> fst ` set evs. n \<notin> S \<and> set (deps_of evs n) \<subseteq> S}"

definition batches_ok :: "(string \<times> Event) list \<Rightarrow> string list list \<Rightarrow> bool" where
  "batches_ok evs bs \<longleftrightarrow>
     (\<forall>k<length bs. sorted_wrt (\<lambda>a b. pkey evs a < pkey evs b) (bs ! k)
        \<and> set (bs ! k) = ready_set evs (set (concat (take k bs))))"

definition adj_ok :: "(string \<times> Event) list \<Rightarrow> (string \<Rightarrow> string list) \<Rightarrow> bool" where
  "adj_ok evs adj \<longleftrightarrow> (\<forall>d m. count_list (adj d) m = count_list (deps_of evs m) d)"

definition topo_inv ::
  "(string \<times> Event) list \<Rightarrow> (int \<times> string) list \<Rightarrow> string list \<Rightarrow> (string \<Rightarrow> int) \<Rightarrow> bool" where
  "topo_inv evs H so D \<longleftrightarrow>
     (\<forall>n. D n = int (length (filter (\<lambda>d. d \<notin> set so) (deps_of evs n))))
     \<and> sorted H \<and> distinct H \<and> set H = pkey evs ` ready_set evs (set so)
     \<and> (\<exists>bs. so = concat bs \<and> batches_ok evs bs)"

lemma batches_ok_snoc:
  "batches_ok evs (bs @ [b]) \<longleftrightarrow>
     batches_ok evs bs \<and> sorted_wrt (\<lambda>a b. pkey evs a < pkey evs b) b
       \<and> set b = ready_set evs (set (concat bs))"
  unfolding batches_ok_def
  by (auto simp: nth_append less_Suc_eq)

lemma batches_distinct: "batches_ok evs bs \<Longrightarrow> distinct (concat bs)"
proof (induction bs rule: rev_induct)
  case Nil
  then show ?case by simp
next
  case (snoc b bs)
  then have ok: "batches_ok evs bs" and s: "sorted_wrt (\<lambda>a b. pkey evs a < pkey evs b) b"
    and r: "set b = ready_set evs (set (concat bs))"
    by (simp_all add: batches_ok_snoc)
  from s have "sorted_wrt (<) (map (pkey evs) b)" by (simp add: sorted_wrt_map)
  then have "distinct (map (pkey evs) b)" by (simp add: strict_sorted_iff)
  then have "distinct b" by (simp add: distinct_map)
  moreover from r have "set b \<inter> set (concat bs) = {}" by (auto simp: ready_set_def)
  ultimately show ?case using snoc.IH [OF ok] by auto
qed

lemma batches_prefix:
  "batches_ok evs bs \<Longrightarrow> n \<in> set (concat bs) \<Longrightarrow>
   \<exists>pre post. concat bs = pre @ n # post \<and> set (deps_of evs n) \<subseteq> set pre"
proof (induction bs rule: rev_induct)
  case Nil
  then show ?case by simp
next
  case (snoc b bs)
  then have ok: "batches_ok evs bs" and r: "set b = ready_set evs (set (concat bs))"
    by (simp_all add: batches_ok_snoc)
  show ?case
  proof (cases "n \<in> set (concat bs)")
    case True
    from snoc.IH [OF ok True] obtain pre post
      where "concat bs = pre @ n # post" "set (deps_of evs n) \<subseteq> set pre" by blast
    then have "concat (bs @ [b]) = pre @ n # (post @ b)" by simp
    with \<open>set (deps_of evs n) \<subseteq> set pre\<close> show ?thesis by blast
  next
    case False
    with snoc.prems have "n \<in> set b" by simp
    then obtain b1 b2 where b: "b = b1 @ n # b2" by (meson split_list)
    from \<open>n \<in> set b\<close> r have "set (deps_of evs n) \<subseteq> set (concat bs)"
      by (simp add: ready_set_def)
    then have "set (deps_of evs n) \<subseteq> set (concat bs @ b1)" by auto
    moreover have "concat (bs @ [b]) = (concat bs @ b1) @ n # b2" using b by simp
    ultimately show ?thesis by blast
  qed
qed

lemma batches_names: "batches_ok evs bs \<Longrightarrow> set (concat bs) \<subseteq> fst ` set evs"
proof (induction bs rule: rev_induct)
  case Nil
  then show ?case by simp
next
  case (snoc b bs)
  then show ?case by (auto simp: batches_ok_snoc ready_set_def)
qed

lemma batches_deps_closed:
  "batches_ok evs bs \<Longrightarrow> n \<in> set (concat bs) \<Longrightarrow> set (deps_of evs n) \<subseteq> set (concat bs)"
proof -
  assume "batches_ok evs bs" "n \<in> set (concat bs)"
  from batches_prefix [OF this] obtain pre post
    where c: "concat bs = pre @ n # post" and d: "set (deps_of evs n) \<subseteq> set pre" by blast
  have "set pre \<subseteq> set (concat bs)" unfolding c by auto
  with d show ?thesis by blast
qed

lemma sum_count_distinct:
  "distinct cl \<Longrightarrow> (\<Sum>c\<leftarrow>cl. count_list xs c) = length (filter (\<lambda>d. d \<in> set cl) xs)"
proof (induction xs)
  case Nil
  then show ?case by simp
next
  case (Cons x xs)
  have "(\<Sum>c\<leftarrow>cl. count_list (x # xs) c) = (\<Sum>c\<leftarrow>cl. count_list xs c) + (\<Sum>c\<leftarrow>cl. if x = c then 1 else 0)"
    by (induction cl) auto
  moreover have "(\<Sum>c\<leftarrow>cl. if x = c then 1 else 0) = (if x \<in> set cl then 1 else (0::nat))"
    using Cons.prems by (induction cl) auto
  ultimately show ?case using Cons by simp
qed

lemma count_neighbors:
  assumes "adj_ok evs adj" and "distinct cl"
  shows "count_list (concat (map adj cl)) m = length (filter (\<lambda>d. d \<in> set cl) (deps_of evs m))"
proof -
  have "count_list (concat (map adj cl)) m = (\<Sum>c\<leftarrow>cl. count_list (deps_of evs m) c)"
    using assms(1) by (simp add: count_list_concat adj_ok_def o_def)
  then show ?thesis using assms(2) by (simp add: sum_count_distinct)
qed

lemma filter_split_length:
  "set cl \<inter> set so = {} \<Longrightarrow>
   length (filter (\<lambda>d. d \<notin> set so) xs) =
     length (filter (\<lambda>d. d \<in> set cl) xs) + length (filter (\<lambda>d. d \<notin> set (so @ cl)) xs)"
  by (induction xs) auto

lemma pkey_inj: "pkey evs a = pkey evs b \<longleftrightarrow> a = b"
  by (auto simp: pkey_def)

lemma distinct_foldl_heappush:
  "distinct (foldl heappush h xs) \<longleftrightarrow> distinct h \<and> distinct xs \<and> set h \<inter> set xs = {}"
  by (induction xs arbitrary: h) (auto simp: heappush_def distinct_insort set_insort_key)

lemma topo_round_inv:
  assumes adj: "adj_ok evs adj" and inv: "topo_inv evs H so D"
  shows "\<exists>H' so' D'. topo_round evs adj (H, so, D) = Inr (H', so', D') \<and> topo_inv evs H' so' D'"
proof -
  let ?R = "ready_set evs (set so)"
  define cl where "cl = map snd H"
  from inv obtain bs where D: "\<And>n. D n = int (length (filter (\<lambda>d. d \<notin> set so) (deps_of evs n)))"
    and sH: "sorted H" and dH: "distinct H" and setH: "set H = pkey evs ` ?R"
    and so: "so = concat bs" and bs: "batches_ok evs bs"
    unfolding topo_inv_def by blast
  have Hmap: "map (pkey evs) cl = H"
  proof -
    have "\<And>x. x \<in> set H \<Longrightarrow> pkey evs (snd x) = x"
      using setH by (auto simp: pkey_def)
    then show ?thesis by (simp add: map_idI cl_def)
  qed
  have setcl: "set cl = ?R"
    using setH by (force simp: pkey_def cl_def)
  have dcl: "distinct cl"
    using dH Hmap by (metis distinct_map)
  have scl: "sorted_wrt (\<lambda>a b. pkey evs a < pkey evs b) cl"
  proof -
    from sH dH have "sorted_wrt (<) (map (pkey evs) cl)"
      unfolding Hmap by (simp add: strict_sorted_iff)
    then show ?thesis by (simp add: sorted_wrt_map)
  qed
  have regcl: "\<forall>n\<in>set cl. map_of evs n \<noteq> None"
    unfolding setcl by (auto simp: ready_set_def map_of_None_iff)
  have sortcl: "sort_key (pkey evs) cl = cl"
    by (rule sort_key_id_if_sorted) (simp only: Hmap sH)
  have 1: "sorted_by_priority evs (drain H []) = Inr cl"
    using regcl sortcl by (simp add: sorted_by_priority_Inr drain_eq cl_def [symmetric])
  let ?ns = "concat (map adj cl)"
  let ?v = "visit_neighbors ?ns (D, [])"
  let ?D' = "fst ?v" and ?nr = "snd ?v"
  have 2: "process_level adj cl (so, D, []) = (so @ cl, ?D', ?nr)"
    by (simp add: process_level_eq)
  have disj: "set cl \<inter> set so = {}"
    unfolding setcl by (auto simp: ready_set_def)
  have D': "\<And>m. ?D' m = int (length (filter (\<lambda>d. d \<notin> set (so @ cl)) (deps_of evs m)))"
    using filter_split_length [OF disj]
    by (simp add: visit_neighbors_fst count_neighbors [OF adj dcl] D)
  have setnr: "set ?nr = ready_set evs (set (so @ cl))"
  proof -
    have "set ?nr = {m. 1 \<le> D m \<and> ?D' m \<le> 0}"
      by (auto simp: visit_neighbors_set visit_neighbors_fst)
    also have "\<dots> = {m. \<not> set (deps_of evs m) \<subseteq> set so \<and> set (deps_of evs m) \<subseteq> set (so @ cl)}"
    proof -
      have a: "\<And>m. 1 \<le> D m \<longleftrightarrow> \<not> set (deps_of evs m) \<subseteq> set so"
        unfolding D by (auto simp: filter_empty_conv Suc_le_eq length_greater_0_conv simp del: length_greater_0_conv)
      have b: "\<And>m. ?D' m \<le> 0 \<longleftrightarrow> set (deps_of evs m) \<subseteq> set (so @ cl)"
        unfolding D' by (auto simp: filter_empty_conv)
      show ?thesis using a b by blast
    qed
    also have "\<dots> = ready_set evs (set (so @ cl))"
    proof (intro set_eqI iffI)
      fix m assume "m \<in> {m. \<not> set (deps_of evs m) \<subseteq> set so \<and> set (deps_of evs m) \<subseteq> set (so @ cl)}"
      then have n1: "\<not> set (deps_of evs m) \<subseteq> set so" and n2: "set (deps_of evs m) \<subseteq> set (so @ cl)"
        by auto
      from n1 have "deps_of evs m \<noteq> []" by auto
      then have "map_of evs m \<noteq> None"
        by (auto simp: deps_of_def split: option.splits)
      then have "m \<in> fst ` set evs"
        by (simp add: map_of_None_iff)
      moreover have "m \<notin> set so"
        using n1 batches_deps_closed [OF bs, of m] so by auto
      moreover have "m \<notin> set cl"
        using n1 unfolding setcl by (simp add: ready_set_def)
      ultimately show "m \<in> ready_set evs (set (so @ cl))"
        using n2 by (simp add: ready_set_def)
    next
      fix m assume "m \<in> ready_set evs (set (so @ cl))"
      then have "m \<in> fst ` set evs" "m \<notin> set so" "m \<notin> set cl"
        "set (deps_of evs m) \<subseteq> set (so @ cl)"
        by (auto simp: ready_set_def)
      moreover from this have "\<not> set (deps_of evs m) \<subseteq> set so"
        unfolding setcl by (auto simp: ready_set_def)
      ultimately show "m \<in> {m. \<not> set (deps_of evs m) \<subseteq> set so \<and> set (deps_of evs m) \<subseteq> set (so @ cl)}"
        by simp
    qed
    finally show ?thesis .
  qed
  have dnr: "distinct ?nr"
    using visit_neighbors_distinct [of "[]" D ?ns] by simp
  have regnr: "\<forall>n\<in>set ?nr. map_of evs n \<noteq> None"
    unfolding setnr by (auto simp: ready_set_def map_of_None_iff)
  let ?H' = "foldl heappush [] (map (pkey evs) (sort_key (pkey evs) ?nr))"
  have 3: "sorted_by_priority evs ?nr = Inr (sort_key (pkey evs) ?nr)"
    using regnr by (simp add: sorted_by_priority_Inr)
  have 4: "push_ready evs (sort_key (pkey evs) ?nr) [] = Inr ?H'"
    using regnr by (simp add: push_ready_Inr)
  have round: "topo_round evs adj (H, so, D) = Inr (?H', so @ cl, ?D')"
    unfolding topo_round_def using 1 2 3 4 by (simp add: cl_def [symmetric] split_beta)
  have "batches_ok evs (bs @ [cl])"
    using bs scl setcl so by (simp add: batches_ok_snoc)
  moreover have "so @ cl = concat (bs @ [cl])" using so by simp
  ultimately have B: "\<exists>bs'. so @ cl = concat bs' \<and> batches_ok evs bs'" by blast
  have "sorted ?H'" by (simp add: sorted_foldl_heappush)
  moreover have "distinct ?H'"
    using dnr by (simp add: distinct_foldl_heappush distinct_map inj_on_def pkey_inj)
  moreover have "set ?H' = pkey evs ` ready_set evs (set (so @ cl))"
    using setnr by (simp add: set_foldl_heappush)
  ultimately have "topo_inv evs ?H' (so @ cl) ?D'"
    unfolding topo_inv_def using D' B by blast
  with round show ?thesis by blast
qed

lemma topo_loop_inv:
  "adj_ok evs adj \<Longrightarrow> topo_inv evs H so D \<Longrightarrow>
    \<exists>so' D'. topo_loop evs adj (H, so, D) = Inr so' \<and> topo_inv evs [] so' D'"
proof (induction evs adj "(H, so, D)" arbitrary: H so D rule: topo_loop.induct)
  case (1 evs adj H so D)
  show ?case
  proof (cases "H = []")
    case True
    with "1.prems" show ?thesis by auto
  next
    case False
    from topo_round_inv [OF "1.prems"(1) "1.prems"(2)] obtain H' so' D'
      where r: "topo_round evs adj (H, so, D) = Inr (H', so', D')" and i: "topo_inv evs H' so' D'"
      by blast
    from "1.hyps" [OF False r "1.prems"(1) i] False r show ?thesis by simp
  qed
qed

definition dep_rel :: "(string \<times> Event) list \<Rightarrow> (string \<times> string) set" where
  "dep_rel evs = {(d, n). \<exists>e. (n, e) \<in> set evs \<and> d \<in> set (dependencies e)}"

lemma resolved_iff: "resolved evs \<longleftrightarrow> (\<forall>(n, e)\<in>set evs. \<forall>d\<in>set (dependencies e). d \<in> fst ` set evs)"
  by (simp add: resolved_def map_of_None_iff)

lemma ready_nodes_eq:
  "[(priority event, event_name). (event_name, event) \<leftarrow> evs, D event_name = 0]
     = map (\<lambda>(n, e). (priority e, n)) (filter (\<lambda>(n, e). D n = 0) evs)"
  by (induction evs) auto

lemma map_of_distinct: "distinct (map fst evs) \<Longrightarrow> (n, e) \<in> set evs \<Longrightarrow> map_of evs n = Some e"
  by simp

lemma deps_of_mem: "distinct (map fst evs) \<Longrightarrow> (n, e) \<in> set evs \<Longrightarrow> deps_of evs n = dependencies e"
  by (simp add: deps_of_def)

lemma pkey_mem: "distinct (map fst evs) \<Longrightarrow> (n, e) \<in> set evs \<Longrightarrow> pkey evs n = (priority e, n)"
  by (simp add: pkey_def prio_of_def)

lemma initial_heap:
  assumes dist: "distinct (map fst evs)" and D: "\<And>m. D m = int (length (deps_of evs m))"
  defines "H \<equiv> foldl heappush [] (sort [(priority event, event_name). (event_name, event) \<leftarrow> evs, D event_name = 0])"
  shows "topo_inv evs H [] D"
proof -
  let ?f = "\<lambda>(n, e). (priority e, n)"
  let ?xs = "filter (\<lambda>(n, e). D n = 0) evs"
  have H: "H = foldl heappush [] (sort (map ?f ?xs))"
    unfolding H_def ready_nodes_eq ..
  have "distinct (map fst ?xs)" using dist by (simp add: distinct_map_filter)
  then have "distinct (map (snd \<circ> ?f) ?xs)"
    by (simp add: case_prod_beta o_def)
  then have "distinct (map ?f ?xs)"
    by (metis distinct_map map_map)
  then have dH: "distinct H" unfolding H by (simp add: distinct_foldl_heappush)
  have sH: "sorted H" unfolding H by (simp add: sorted_foldl_heappush)
  have "set H = ?f ` set ?xs" unfolding H by (simp add: set_foldl_heappush)
  also have "\<dots> = pkey evs ` ready_set evs (set [])"
  proof (intro set_eqI iffI)
    fix x assume "x \<in> ?f ` set ?xs"
    then obtain n e where ne: "(n, e) \<in> set evs" "D n = 0" "x = (priority e, n)" by auto
    from ne(2) D have "deps_of evs n = []" by simp
    with ne(1) have "n \<in> ready_set evs (set [])" by (force simp: ready_set_def)
    moreover from ne pkey_mem [OF dist ne(1)] have "x = pkey evs n" by simp
    ultimately show "x \<in> pkey evs ` ready_set evs (set [])" by blast
  next
    fix x assume "x \<in> pkey evs ` ready_set evs (set [])"
    then obtain n where n: "n \<in> fst ` set evs" "deps_of evs n = []" "x = pkey evs n"
      by (auto simp: ready_set_def)
    then obtain e where e: "(n, e) \<in> set evs" by force
    with n D have "(n, e) \<in> set ?xs" by simp
    moreover from n(3) pkey_mem [OF dist e] have "x = ?f (n, e)" by simp
    ultimately show "x \<in> ?f ` set ?xs" by blast
  qed
  finally have setH: "set H = pkey evs ` ready_set evs (set [])" .
  have "batches_ok evs []" by (simp add: batches_ok_def)
  then have "\<exists>bs. [] = concat bs \<and> batches_ok evs bs" by force
  with dH sH setH D show ?thesis unfolding topo_inv_def by simp
qed

text \<open>What \<open>topological_sort\<close> computes when every dependency resolves.\<close>

lemma topological_sort_resolved:
  assumes dist: "distinct (map fst (events s))" and res: "resolved (events s)"
  shows "\<exists>bs. batches_ok (events s) bs \<and> ready_set (events s) (set (concat bs)) = {}
     \<and> topological_sort s =
         (if length (concat bs) \<noteq> length (events s) then Inl (ValueError cycle_msg)
          else Inr (concat bs))"
proof -
  let ?evs = "events s"
  from res have "\<forall>(n, e)\<in>set ?evs. \<forall>d\<in>set (dependencies e). map_of ?evs d \<noteq> None"
    by (simp add: resolved_def)
  from build_graph_ok [OF this, of "\<lambda>_. 0" "\<lambda>_. []"] obtain D adj
    where b: "build_graph ?evs ?evs (\<lambda>_. 0, \<lambda>_. []) = Inr (D, adj)"
      and D: "\<forall>m. D m = in_degree_of ?evs m"
      and adj: "\<forall>d m. count_list (adj d) m = adj_count ?evs d m"
    by auto
  from D have D': "\<And>m. D m = int (length (deps_of ?evs m))"
    by (simp add: in_degree_of_distinct [OF dist])
  from adj have adj': "adj_ok ?evs adj"
    by (simp add: adj_ok_def adj_count_distinct [OF dist])
  let ?H = "foldl heappush [] (sort [(priority event, event_name). (event_name, event) \<leftarrow> ?evs, D event_name = 0])"
  from initial_heap [OF dist D'] have "topo_inv ?evs ?H [] D" .
  from topo_loop_inv [OF adj' this] obtain so D2
    where l: "topo_loop ?evs adj (?H, [], D) = Inr so" and i: "topo_inv ?evs [] so D2"
    by blast
  from i obtain bs where so: "so = concat bs" and bs: "batches_ok ?evs bs"
    and r: "ready_set ?evs (set so) = {}"
    unfolding topo_inv_def by auto
  have "topological_sort s =
         (if length so \<noteq> length ?evs then Inl (ValueError cycle_msg) else Inr so)"
    unfolding topological_sort_def using b l by (simp add: Let_def)
  with so bs r show ?thesis by blast
qed

lemma topological_sort_unresolved:
  assumes "\<not> resolved (events s)"
  shows "\<exists>(n, e)\<in>set (events s). \<exists>d\<in>set (dependencies e). map_of (events s) d = None
     \<and> topological_sort s = Inl (ValueError (unknown_msg n d))"
proof -
  from assms have "\<exists>(n, e)\<in>set (events s). \<exists>d\<in>set (dependencies e). map_of (events s) d = None"
    unfolding resolved_def by fastforce
  from build_graph_fail [OF this, of "(\<lambda>_. 0, \<lambda>_. [])"]
  show ?thesis unfolding topological_sort_def by fastforce
qed

lemma full_order_if_same_length:
  assumes dist: "distinct (map fst evs)" and bs: "batches_ok evs bs"
  shows "length (concat bs) = length evs \<longleftrightarrow> set (concat bs) = fst ` set evs"
proof -
  have d: "distinct (concat bs)" by (rule batches_distinct [OF bs])
  have sub: "set (concat bs) \<subseteq> fst ` set evs" by (rule batches_names [OF bs])
  have c1: "card (set (concat bs)) = length (concat bs)" using d by (rule distinct_card)
  have c2: "card (fst ` set evs) = length evs"
    using distinct_card [OF dist] by simp
  show ?thesis
  proof
    assume "length (concat bs) = length evs"
    with c1 c2 have "card (set (concat bs)) = card (fst ` set evs)" by simp
    with sub show "set (concat bs) = fst ` set evs"
      by (simp add: card_subset_eq)
  next
    assume "set (concat bs) = fst ` set evs"
    with c1 c2 show "length (concat bs) = length evs" by simp
  qed
qed

text \<open>Soundness: a returned order is complete, duplicate-free and made of ready batches.\<close>

lemma topological_sort_Inr:
  assumes dist: "distinct (map fst (events s))" and ok: "topological_sort s = Inr so"
  shows "resolved (events s)" and "distinct so" and "set so = fst ` set (events s)"
    and "\<exists>bs. so = concat bs \<and> batches_ok (events s) bs"
proof -
  show res: "resolved (events s)"
  proof (rule ccontr)
    assume "\<not> resolved (events s)"
    from topological_sort_unresolved [OF this] ok show False by auto
  qed
  from topological_sort_resolved [OF dist res] ok obtain bs
    where bs: "batches_ok (events s) bs" and so: "so = concat bs"
      and len: "length (concat bs) = length (events s)"
    by (auto split: if_splits)
  from bs so show "distinct so" by (simp add: batches_distinct)
  from full_order_if_same_length [OF dist bs] len so show "set so = fst ` set (events s)" by simp
  from bs so show "\<exists>bs. so = concat bs \<and> batches_ok (events s) bs" by blast
qed

text \<open>Completeness: with an acyclic dependency relation nothing is left over.\<close>

lemma acyclic_no_leftover:
  assumes acyc: "acyclic (dep_rel evs)" and res: "resolved evs" and dist: "distinct (map fst evs)"
    and r: "ready_set evs S = {}" and sub: "S \<subseteq> fst ` set evs"
  shows "S = fst ` set evs"
proof (rule ccontr)
  assume "S \<noteq> fst ` set evs"
  with sub obtain n0 where n0: "n0 \<in> fst ` set evs - S" by blast
  have "finite (dep_rel evs)"
  proof -
    have "dep_rel evs \<subseteq> (\<Union>(n, e)\<in>set evs. (\<lambda>d. (d, n)) ` set (dependencies e))"
      by (auto simp: dep_rel_def)
    moreover have "finite (\<Union>(n, e)\<in>set evs. (\<lambda>d. (d, n)) ` set (dependencies e))" by auto
    ultimately show ?thesis by (rule finite_subset)
  qed
  with acyc have "wf (dep_rel evs)" by (rule finite_acyclic_wf [rotated])
  from wfE_min [OF this n0] obtain m where m: "m \<in> fst ` set evs - S"
    and min: "\<And>d. (d, m) \<in> dep_rel evs \<Longrightarrow> d \<notin> fst ` set evs - S" by blast
  from m obtain e where e: "(m, e) \<in> set evs" by force
  have "set (deps_of evs m) \<subseteq> S"
  proof
    fix d assume "d \<in> set (deps_of evs m)"
    with e dist have d: "d \<in> set (dependencies e)" by (simp add: deps_of_mem)
    with e have "(d, m) \<in> dep_rel evs" by (auto simp: dep_rel_def)
    from min [OF this] have "d \<notin> fst ` set evs - S" .
    moreover from res e d have "d \<in> fst ` set evs" by (auto simp: resolved_iff)
    ultimately show "d \<in> S" by simp
  qed
  with m have "m \<in> ready_set evs S" by (simp add: ready_set_def)
  with r show False by simp
qed

lemma topological_sort_acyclic:
  assumes dist: "distinct (map fst (events s))" and res: "resolved (events s)"
    and acyc: "acyclic (dep_rel (events s))"
  shows "\<exists>bs. batches_ok (events s) bs \<and> topological_sort s = Inr (concat bs)"
proof -
  from topological_sort_resolved [OF dist res] obtain bs
    where bs: "batches_ok (events s) bs" and r: "ready_set (events s) (set (concat bs)) = {}"
      and t: "topological_sort s =
         (if length (concat bs) \<noteq> length (events s) then Inl (ValueError cycle_msg)
          else Inr (concat bs))"
    by blast
  from acyclic_no_leftover [OF acyc res dist r batches_names [OF bs]]
  have "set (concat bs) = fst ` set (events s)" .
  with full_order_if_same_length [OF dist bs] have "length (concat bs) = length (events s)" by simp
  with t bs show ?thesis by auto
qed

text \<open>A returned order shows that the dependency relation is acyclic.\<close>

lemma takeWhile_neq_shorter:
  "x \<in> set xs \<Longrightarrow> length (takeWhile (\<lambda>y. y \<noteq> x) xs) < length xs"
  by (induction xs) auto

lemma batches_acyclic:
  assumes dist: "distinct (map fst evs)" and bs: "batches_ok evs bs"
    and full: "set (concat bs) = fst ` set evs"
  shows "acyclic (dep_rel evs)"
proof -
  let ?so = "concat bs"
  let ?rank = "\<lambda>n. length (takeWhile (\<lambda>x. x \<noteq> n) ?so)"
  have d: "distinct ?so" by (rule batches_distinct [OF bs])
  have "acyclic ((dep_rel evs)\<inverse>)"
  proof (rule acyclicI_order [where f = ?rank])
    fix a b assume "(a, b) \<in> (dep_rel evs)\<inverse>"
    then obtain e where e: "(a, e) \<in> set evs" and b: "b \<in> set (dependencies e)"
      by (auto simp: dep_rel_def)
    from e full have "a \<in> set ?so" by force
    from batches_prefix [OF bs this] obtain pre post
      where c: "?so = pre @ a # post" and p: "set (deps_of evs a) \<subseteq> set pre" by blast
    from d c have "a \<notin> set pre" by (metis distinct_append disjoint_iff list.set_intros(1))
    then have "takeWhile (\<lambda>x. x \<noteq> a) (pre @ a # post) = pre"
      by (subst takeWhile_append2) auto
    then have ra: "?rank a = length pre" unfolding c by simp
    from p b e dist have bp: "b \<in> set pre" by (auto simp: deps_of_mem)
    then have "takeWhile (\<lambda>x. x \<noteq> b) ?so = takeWhile (\<lambda>x. x \<noteq> b) pre"
      unfolding c by (simp add: takeWhile_append1)
    moreover have "length (takeWhile (\<lambda>x. x \<noteq> b) pre) < length pre"
      using bp by (rule takeWhile_neq_shorter)
    ultimately show "?rank b < ?rank a" using ra by simp
  qed
  then show ?thesis by simp
qed

lemma topological_sort_Inr_acyclic:
  assumes dist: "distinct (map fst (events s))" and ok: "topological_sort s = Inr so"
  shows "acyclic (dep_rel (events s))"
proof -
  from topological_sort_Inr [OF dist ok] obtain bs
    where "so = concat bs" "batches_ok (events s) bs" "set so = fst ` set (events s)" by blast
  then show ?thesis using batches_acyclic [OF dist] by simp
qed

section \<open>Simulation: invariants\<close>

lemma set_heappush: "set (heappush h x) = insert x (set h)"
  by (simp add: heappush_def set_insort_key)

lemma sorted_heappush: "sorted h \<Longrightarrow> sorted (heappush h x)"
  by (simp add: heappush_def sorted_insort)

lemma distinct_map_insort:
  "distinct (map f (insort x xs)) \<longleftrightarrow> f x \<notin> f ` set xs \<and> distinct (map f xs)"
  by (induction xs) (auto simp: set_insort_key)

lemma distinct_map_heappush:
  "distinct (map f (heappush h x)) \<longleftrightarrow> f x \<notin> f ` set h \<and> distinct (map f h)"
  by (simp add: heappush_def distinct_map_insort)

lemma map_of_update: "map_of (AList.update k v al) = (map_of al)(k \<mapsto> v)"
  by (rule update_conv')

lemma map_of_delete: "map_of (AList.delete k al) = (map_of al)(k := None)"
  by (rule delete_conv')

definition release_map :: "string \<Rightarrow> string set \<Rightarrow> (string \<rightharpoonup> string set) \<Rightarrow> (string \<rightharpoonup> string set)" where
  "release_map c keys M =
     (\<lambda>w. if w \<in> keys
          then (case M w of None \<Rightarrow> None | Some S \<Rightarrow> if S = {c} then None else Some (S - {c}))
          else M w)"

definition release_post ::
  "(string \<times> Event) list \<Rightarrow> string \<Rightarrow> string list \<Rightarrow> (string \<times> string set) list \<Rightarrow> (int \<times> string) list
    \<Rightarrow> (string \<times> string set) list \<Rightarrow> (int \<times> string) list \<Rightarrow> bool" where
  "release_post evs c keys wt rq wt' rq' \<longleftrightarrow>
     map_of wt' = release_map c (set keys) (map_of wt)
     \<and> set rq' = set rq \<union> pkey evs ` {w \<in> set keys. map_of wt w = Some {c}}
     \<and> (distinct (map fst wt) \<longrightarrow> distinct (map fst wt'))
     \<and> (distinct (map snd rq) \<and> snd ` set rq \<inter> set keys = {} \<longrightarrow> distinct (map snd rq'))"

lemma release_map_Cons_del:
  "k \<notin> keys \<Longrightarrow> M k = Some {c} \<Longrightarrow>
   release_map c keys (M(k := None)) = release_map c (insert k keys) M"
  by (auto simp: release_map_def fun_eq_iff)

lemma release_map_Cons_upd:
  "k \<notin> keys \<Longrightarrow> M k = Some S \<Longrightarrow> S \<noteq> {c} \<Longrightarrow>
   release_map c keys (M(k \<mapsto> S - {c})) = release_map c (insert k keys) M"
  by (auto simp: release_map_def fun_eq_iff)

lemma release_map_Cons_skip:
  "k \<notin> keys \<Longrightarrow> M k = Some S \<Longrightarrow> c \<notin> S \<Longrightarrow>
   release_map c keys M = release_map c (insert k keys) M"
  by (auto simp: release_map_def fun_eq_iff)

lemma release_ok:
  assumes "distinct keys" and "\<forall>k\<in>set keys. map_of wt k \<noteq> None"
    and "\<forall>k\<in>set keys. map_of evs k \<noteq> None"
  shows "\<exists>wt' rq'. release evs c keys (wt, rq) = Inr (wt', rq') \<and> release_post evs c keys wt rq wt' rq'"
  using assms
proof (induction keys arbitrary: wt rq)
  case Nil
  then show ?case by (simp add: release_post_def release_map_def)
next
  case (Cons k keys)
  from Cons.prems obtain S e where S: "map_of wt k = Some S" and e: "map_of evs k = Some e"
    by auto
  from Cons.prems have dk: "distinct keys" and kn: "k \<notin> set keys"
    and reg: "\<forall>k\<in>set keys. map_of evs k \<noteq> None" by auto
  have pk: "pkey evs k = (priority e, k)" using e by (simp add: pkey_def prio_of_def)
  consider (rel) "S = {c}" | (upd) "c \<in> S" "S \<noteq> {c}" | (skip) "c \<notin> S" by blast
  then show ?case
  proof cases
    case rel
    define wt1 where "wt1 = AList.delete k (AList.update k (S - {c}) wt)"
    define rq1 where "rq1 = heappush rq (priority e, k)"
    have m: "map_of wt1 = (map_of wt)(k := None)"
      by (simp add: wt1_def map_of_delete map_of_update)
    have step: "release evs c (k # keys) (wt, rq) = release evs c keys (wt1, rq1)"
      using S e rel by (simp add: Let_def wt1_def rq1_def)
    have pres: "\<forall>k'\<in>set keys. map_of wt1 k' \<noteq> None"
      using Cons.prems(2) kn by (auto simp: m)
    from Cons.IH [OF dk pres reg, of rq1] obtain wt' rq'
      where r: "release evs c keys (wt1, rq1) = Inr (wt', rq')"
        and p: "release_post evs c keys wt1 rq1 wt' rq'"
      by blast
    have eqs: "{w \<in> set keys. map_of wt1 w = Some {c}} = {w \<in> set keys. map_of wt w = Some {c}}"
      using kn by (auto simp: m)
    have 1: "map_of wt' = release_map c (set (k # keys)) (map_of wt)"
      using p S rel kn by (simp add: release_post_def m release_map_Cons_del)
    have 2: "set rq' = set rq \<union> pkey evs ` {w \<in> set (k # keys). map_of wt w = Some {c}}"
    proof -
      have "{w \<in> set (k # keys). map_of wt w = Some {c}} = insert k {w \<in> set keys. map_of wt w = Some {c}}"
        using S rel by auto
      moreover have "set rq' = insert (pkey evs k) (set rq) \<union> pkey evs ` {w \<in> set keys. map_of wt w = Some {c}}"
        using p eqs by (simp add: release_post_def rq1_def set_heappush pk)
      ultimately show ?thesis by simp
    qed
    have 3: "distinct (map fst wt) \<longrightarrow> distinct (map fst wt')"
      using p by (simp add: release_post_def wt1_def distinct_delete distinct_update)
    have 4: "distinct (map snd rq) \<and> snd ` set rq \<inter> set (k # keys) = {} \<longrightarrow> distinct (map snd rq')"
    proof
      assume a: "distinct (map snd rq) \<and> snd ` set rq \<inter> set (k # keys) = {}"
      then have "distinct (map snd rq1)" by (auto simp: rq1_def distinct_map_heappush)
      moreover have "snd ` set rq1 \<inter> set keys = {}" using a kn by (auto simp: rq1_def set_heappush)
      ultimately show "distinct (map snd rq')" using p by (simp add: release_post_def)
    qed
    from 1 2 3 4 have "release_post evs c (k # keys) wt rq wt' rq'"
      unfolding release_post_def by blast
    with step r show ?thesis by simp
  next
    case upd
    define wt1 where "wt1 = AList.update k (S - {c}) wt"
    have m: "map_of wt1 = (map_of wt)(k \<mapsto> S - {c})"
      by (simp add: wt1_def map_of_update)
    have step: "release evs c (k # keys) (wt, rq) = release evs c keys (wt1, rq)"
      using S upd by (auto simp: Let_def wt1_def)
    have pres: "\<forall>k'\<in>set keys. map_of wt1 k' \<noteq> None"
      using Cons.prems(2) by (simp add: m)
    from Cons.IH [OF dk pres reg, of rq] obtain wt' rq'
      where r: "release evs c keys (wt1, rq) = Inr (wt', rq')"
        and p: "release_post evs c keys wt1 rq wt' rq'"
      by blast
    have eqs: "{w \<in> set keys. map_of wt1 w = Some {c}} = {w \<in> set keys. map_of wt w = Some {c}}"
      using kn by (auto simp: m)
    have 1: "map_of wt' = release_map c (set (k # keys)) (map_of wt)"
      using p S upd kn by (simp add: release_post_def m release_map_Cons_upd)
    have 2: "set rq' = set rq \<union> pkey evs ` {w \<in> set (k # keys). map_of wt w = Some {c}}"
    proof -
      have "{w \<in> set (k # keys). map_of wt w = Some {c}} = {w \<in> set keys. map_of wt w = Some {c}}"
        using S upd by auto
      then show ?thesis using p eqs by (simp add: release_post_def)
    qed
    have 3: "distinct (map fst wt) \<longrightarrow> distinct (map fst wt')"
      using p by (simp add: release_post_def wt1_def distinct_update)
    have 4: "distinct (map snd rq) \<and> snd ` set rq \<inter> set (k # keys) = {} \<longrightarrow> distinct (map snd rq')"
      using p by (simp add: release_post_def)
    from 1 2 3 4 have "release_post evs c (k # keys) wt rq wt' rq'"
      unfolding release_post_def by blast
    with step r show ?thesis by simp
  next
    case skip
    have step: "release evs c (k # keys) (wt, rq) = release evs c keys (wt, rq)"
      using S skip by simp
    have pres: "\<forall>k'\<in>set keys. map_of wt k' \<noteq> None"
      using Cons.prems(2) by simp
    from Cons.IH [OF dk pres reg, of rq] obtain wt' rq'
      where r: "release evs c keys (wt, rq) = Inr (wt', rq')"
        and p: "release_post evs c keys wt rq wt' rq'"
      by blast
    have 1: "map_of wt' = release_map c (set (k # keys)) (map_of wt)"
      using p S skip kn release_map_Cons_skip [of k "set keys" "map_of wt" S c]
      by (simp add: release_post_def)
    have 2: "set rq' = set rq \<union> pkey evs ` {w \<in> set (k # keys). map_of wt w = Some {c}}"
    proof -
      have "{w \<in> set (k # keys). map_of wt w = Some {c}} = {w \<in> set keys. map_of wt w = Some {c}}"
        using S skip by auto
      then show ?thesis using p by (simp add: release_post_def)
    qed
    have 3: "distinct (map fst wt) \<longrightarrow> distinct (map fst wt')"
      using p by (simp add: release_post_def)
    have 4: "distinct (map snd rq) \<and> snd ` set rq \<inter> set (k # keys) = {} \<longrightarrow> distinct (map snd rq')"
      using p by (simp add: release_post_def)
    from 1 2 3 4 have "release_post evs c (k # keys) wt rq wt' rq'"
      unfolding release_post_def by blast
    with step r show ?thesis by simp
  qed
qed

definition res_of :: "(string \<times> Event) list \<Rightarrow> string \<Rightarrow> int" where
  "res_of evs n = (case map_of evs n of Some e \<Rightarrow> resources_required e | None \<Rightarrow> 0)"

definition load :: "(string \<times> Event) list \<Rightarrow> (string \<times> int \<times> int) list \<Rightarrow> int \<Rightarrow> int" where
  "load evs sch t = (\<Sum>(n, s, e)\<leftarrow>sch. if s \<le> t \<and> t < e then res_of evs n else 0)"

definition rq_names :: "sim_state \<Rightarrow> string set" where
  "rq_names st = snd ` set (ready_queue st)"

definition act_names :: "sim_state \<Rightarrow> string set" where
  "act_names st = (fst \<circ> snd) ` set (active_events st)"

definition part_inv :: "(string \<times> Event) list \<Rightarrow> sim_state \<Rightarrow> bool" where
  "part_inv evs st \<longleftrightarrow>
     distinct (map snd (ready_queue st)) \<and> distinct (map fst (waiting st))
     \<and> distinct (map fst (sched st))
     \<and> rq_names st \<inter> fst ` set (waiting st) = {}
     \<and> rq_names st \<inter> fst ` set (sched st) = {}
     \<and> fst ` set (waiting st) \<inter> fst ` set (sched st) = {}
     \<and> rq_names st \<union> fst ` set (waiting st) \<union> fst ` set (sched st) = fst ` set evs"

definition act_inv :: "(string \<times> Event) list \<Rightarrow> sim_state \<Rightarrow> bool" where
  "act_inv evs st \<longleftrightarrow>
     distinct (map (fst \<circ> snd) (active_events st)) \<and> sorted (active_events st)
     \<and> (\<forall>(e, n, r)\<in>set (active_events st).
            r = res_of evs n \<and> (\<exists>s. map_of (sched st) n = Some (s, e)))
     \<and> scheduled st = fst ` set (sched st) - act_names st"

definition wait_inv :: "(string \<times> Event) list \<Rightarrow> sim_state \<Rightarrow> bool" where
  "wait_inv evs st \<longleftrightarrow>
     (\<forall>w S. map_of (waiting st) w = Some S \<longrightarrow> S \<noteq> {} \<and> S = set (deps_of evs w) - scheduled st)
     \<and> (\<forall>n\<in>rq_names st. set (deps_of evs n) \<subseteq> scheduled st)"

definition order_inv :: "(string \<times> Event) list \<Rightarrow> sim_state \<Rightarrow> bool" where
  "order_inv evs st \<longleftrightarrow>
     (\<forall>n s e. map_of (sched st) n = Some (s, e) \<longrightarrow>
        (\<forall>d\<in>set (deps_of evs n). \<exists>sd ed. map_of (sched st) d = Some (sd, ed) \<and> ed \<le> s))"

definition wf_nums :: "(string \<times> Event) list \<Rightarrow> int \<Rightarrow> bool" where
  "wf_nums evs cap \<longleftrightarrow>
     0 \<le> cap \<and> (\<forall>(n, e)\<in>set evs. 0 \<le> duration e \<and> 0 \<le> resources_required e)"

definition running :: "int \<Rightarrow> (int \<times> string \<times> int) list \<Rightarrow> int" where
  "running t act = sum_list (map (snd \<circ> snd) (filter (\<lambda>x. t < fst x) act))"

definition res_inv :: "(string \<times> Event) list \<Rightarrow> int \<Rightarrow> sim_state \<Rightarrow> bool" where
  "res_inv evs cap st \<longleftrightarrow>
     active_resources st = sum_list (map (snd \<circ> snd) (active_events st))
     \<and> active_resources st \<le> cap
     \<and> (\<forall>(e, n, r)\<in>set (active_events st). current_time st \<le> e \<and> 0 \<le> r)
     \<and> (\<forall>t. load evs (sched st) t \<le> cap)
     \<and> (\<forall>t\<ge>current_time st. load evs (sched st) t \<le> running t (active_events st))"

definition sim_inv :: "(string \<times> Event) list \<Rightarrow> int \<Rightarrow> sim_state \<Rightarrow> bool" where
  "sim_inv evs cap st \<longleftrightarrow>
     part_inv evs st \<and> act_inv evs st \<and> wait_inv evs st \<and> order_inv evs st
     \<and> (wf_nums evs cap \<longrightarrow> res_inv evs cap st)"

text \<open>Retiring the head of the active heap.\<close>

definition retire_one ::
  "sim_state \<Rightarrow> string \<Rightarrow> int \<Rightarrow> (int \<times> string \<times> int) list \<Rightarrow> (string \<times> string set) list
    \<Rightarrow> (int \<times> string) list \<Rightarrow> sim_state" where
  "retire_one st c r rest wt' rq' =
     st\<lparr>active_events := rest, active_resources := active_resources st - r,
        scheduled := insert c (scheduled st), waiting := wt', ready_queue := rq'\<rparr>"

lemma dom_release_map:
  "dom (release_map c keys M) = dom M - {w \<in> keys. M w = Some {c}}"
  by (auto simp: release_map_def split: option.splits if_splits)

lemma fst_set_conv_dom: "fst ` set al = dom (map_of al)"
  by (simp add: dom_map_of_conv_image_fst)

lemma retire_one_part:
  assumes p: "part_inv evs st" and a: "act_inv evs st"
    and act: "active_events st = (t, c, r) # rest"
    and post: "release_post evs c (map fst (waiting st)) (waiting st) (ready_queue st) wt' rq'"
  shows "part_inv evs (retire_one st c r rest wt' rq')"
proof -
  let ?Rel = "{w \<in> fst ` set (waiting st). map_of (waiting st) w = Some {c}}"
  from post have mw: "map_of wt' = release_map c (fst ` set (waiting st)) (map_of (waiting st))"
    and sr: "set rq' = set (ready_queue st) \<union> pkey evs ` ?Rel"
    and dw: "distinct (map fst (waiting st)) \<longrightarrow> distinct (map fst wt')"
    and dr: "distinct (map snd (ready_queue st)) \<and> snd ` set (ready_queue st) \<inter> fst ` set (waiting st) = {}
               \<longrightarrow> distinct (map snd rq')"
    by (simp_all add: release_post_def)
  have W': "fst ` set wt' = fst ` set (waiting st) - ?Rel"
    unfolding fst_set_conv_dom mw dom_release_map by auto
  have R': "snd ` set rq' = rq_names st \<union> ?Rel"
    unfolding sr rq_names_def by (auto simp: image_Un image_image pkey_def)
  from p have d1: "distinct (map snd rq')" using dr by (simp add: part_inv_def rq_names_def)
  from p have d2: "distinct (map fst wt')" using dw by (simp add: part_inv_def)
  from p have d3: "distinct (map fst (sched st))" by (simp add: part_inv_def)
  from p have i1: "rq_names st \<inter> fst ` set (waiting st) = {}"
    and i2: "rq_names st \<inter> fst ` set (sched st) = {}"
    and i3: "fst ` set (waiting st) \<inter> fst ` set (sched st) = {}"
    and u: "rq_names st \<union> fst ` set (waiting st) \<union> fst ` set (sched st) = fst ` set evs"
    by (simp_all add: part_inv_def)
  have j1: "snd ` set rq' \<inter> fst ` set wt' = {}" unfolding R' W' using i1 by blast
  have j2: "snd ` set rq' \<inter> fst ` set (sched st) = {}" unfolding R' using i2 i3 by blast
  have j3: "fst ` set wt' \<inter> fst ` set (sched st) = {}" unfolding W' using i3 by blast
  have j4: "snd ` set rq' \<union> fst ` set wt' \<union> fst ` set (sched st) = fst ` set evs"
    unfolding R' W' using u by blast
  show ?thesis
    unfolding part_inv_def retire_one_def rq_names_def
    using d1 d2 d3 j1 j2 j3 j4 by simp
qed

lemma retire_one_act:
  assumes a: "act_inv evs st" and act: "active_events st = (t, c, r) # rest"
  shows "act_inv evs (retire_one st c r rest wt' rq')"
proof -
  from a act have d: "c \<notin> (fst \<circ> snd) ` set rest" "distinct (map (fst \<circ> snd) rest)"
    and s: "sorted rest"
    and e: "\<forall>(e, n, r)\<in>set rest. r = res_of evs n \<and> (\<exists>s. map_of (sched st) n = Some (s, e))"
    and c: "\<exists>s. map_of (sched st) c = Some (s, t)"
    and sc: "scheduled st = fst ` set (sched st) - insert c ((fst \<circ> snd) ` set rest)"
    by (auto simp: act_inv_def act_names_def)
  from c have "c \<in> fst ` set (sched st)" by (auto simp: fst_set_conv_dom)
  with sc d(1) have "insert c (scheduled st) = fst ` set (sched st) - (fst \<circ> snd) ` set rest"
    by auto
  with d(2) s e show ?thesis
    unfolding act_inv_def retire_one_def act_names_def by simp
qed

lemma retire_one_wait:
  assumes w: "wait_inv evs st"
    and post: "release_post evs c (map fst (waiting st)) (waiting st) (ready_queue st) wt' rq'"
  shows "wait_inv evs (retire_one st c r rest wt' rq')"
proof -
  let ?Rel = "{w \<in> fst ` set (waiting st). map_of (waiting st) w = Some {c}}"
  from post have mw: "map_of wt' = release_map c (fst ` set (waiting st)) (map_of (waiting st))"
    and sr: "set rq' = set (ready_queue st) \<union> pkey evs ` ?Rel"
    by (simp_all add: release_post_def)
  from w have w1: "\<And>w S. map_of (waiting st) w = Some S \<Longrightarrow> S \<noteq> {} \<and> S = set (deps_of evs w) - scheduled st"
    and w2: "\<And>n. n \<in> rq_names st \<Longrightarrow> set (deps_of evs n) \<subseteq> scheduled st"
    by (auto simp: wait_inv_def)
  have R': "snd ` set rq' = rq_names st \<union> ?Rel"
    unfolding sr rq_names_def by (auto simp: image_Un image_image pkey_def)
  have a: "\<And>w S'. map_of wt' w = Some S' \<Longrightarrow>
      S' \<noteq> {} \<and> S' = set (deps_of evs w) - insert c (scheduled st)"
  proof -
    fix w S' assume "map_of wt' w = Some S'"
    then obtain S where S: "map_of (waiting st) w = Some S" and n: "S \<noteq> {c}" and S': "S' = S - {c}"
      unfolding mw release_map_def
      by (auto split: if_splits option.splits simp: fst_set_conv_dom)
    from w1 [OF S] n S' show "S' \<noteq> {} \<and> S' = set (deps_of evs w) - insert c (scheduled st)"
      by auto
  qed
  have b: "\<And>n. n \<in> snd ` set rq' \<Longrightarrow> set (deps_of evs n) \<subseteq> insert c (scheduled st)"
  proof -
    fix n assume "n \<in> snd ` set rq'"
    then consider "n \<in> rq_names st" | "map_of (waiting st) n = Some {c}" unfolding R' by blast
    then show "set (deps_of evs n) \<subseteq> insert c (scheduled st)"
    proof cases
      case 1
      from w2 [OF this] show ?thesis by blast
    next
      case 2
      from w1 [OF this] show ?thesis by blast
    qed
  qed
  show ?thesis
    unfolding wait_inv_def retire_one_def rq_names_def using a b by simp
qed

lemma retire_one_order:
  "order_inv evs st \<Longrightarrow> order_inv evs (retire_one st c r rest wt' rq')"
  by (simp add: order_inv_def retire_one_def)

lemma retire_one_res:
  assumes r: "res_inv evs cap st"
    and act: "active_events st = (current_time st, c, r) # rest"
  shows "res_inv evs cap (retire_one st c r rest wt' rq')"
proof -
  from r act have r0: "0 \<le> r" by (auto simp: res_inv_def)
  from r act have 1: "active_resources st - r = sum_list (map (snd \<circ> snd) rest)"
    and 2: "active_resources st - r \<le> cap"
    and 3: "\<forall>(e, n, r)\<in>set rest. current_time st \<le> e \<and> 0 \<le> r"
    and 4: "\<forall>t. load evs (sched st) t \<le> cap"
    and 5: "\<forall>t\<ge>current_time st. load evs (sched st) t \<le> running t ((current_time st, c, r) # rest)"
    using r0 by (auto simp: res_inv_def)
  from 5 have n5: "\<forall>t\<ge>current_time st. load evs (sched st) t \<le> running t rest"
    by (simp add: running_def)
  show ?thesis
    unfolding res_inv_def retire_one_def using 1 2 3 4 n5 by simp
qed

lemma retire_one_inv:
  assumes inv: "sim_inv evs cap st"
    and act: "active_events st = (current_time st, c, r) # rest"
    and post: "release_post evs c (map fst (waiting st)) (waiting st) (ready_queue st) wt' rq'"
  shows "sim_inv evs cap (retire_one st c r rest wt' rq')"
  using inv retire_one_part [OF _ _ act post] retire_one_act [OF _ act]
    retire_one_wait [OF _ post] retire_one_order retire_one_res [OF _ act]
  unfolding sim_inv_def by blast

lemma release_total:
  assumes p: "part_inv evs st"
  shows "\<exists>wt' rq'. release evs c (map fst (waiting st)) (waiting st, ready_queue st) = Inr (wt', rq')
     \<and> release_post evs c (map fst (waiting st)) (waiting st) (ready_queue st) wt' rq'"
proof -
  from p have d: "distinct (map fst (waiting st))" by (simp add: part_inv_def)
  have k: "\<forall>k\<in>set (map fst (waiting st)). map_of (waiting st) k \<noteq> None"
    by (simp add: map_of_None_iff)
  from p have "fst ` set (waiting st) \<subseteq> fst ` set evs" by (auto simp: part_inv_def)
  then have reg: "\<forall>k\<in>set (map fst (waiting st)). map_of evs k \<noteq> None"
    by (auto simp: map_of_None_iff)
  from release_ok [OF d k reg] show ?thesis .
qed

definition retire_state ::
  "sim_state \<Rightarrow> (int \<times> string \<times> int) list \<times> int \<times> string set \<times> (string \<times> string set) list \<times> (int \<times> string) list
    \<Rightarrow> sim_state" where
  "retire_state st x =
     (case x of (act', ar', fin', wt', rq') \<Rightarrow>
        st\<lparr>active_events := act', active_resources := ar', scheduled := fin',
           waiting := wt', ready_queue := rq'\<rparr>)"

lemma retire_state_retire_one:
  "retire_state (retire_one st c r rest wt' rq') x = retire_state st x"
  by (cases x) (simp add: retire_state_def retire_one_def)

lemma retire_inv:
  "sim_inv evs cap st \<Longrightarrow> active_events st = act \<Longrightarrow>
   \<exists>x. retire evs (current_time st) act
          (active_resources st, scheduled st, waiting st, ready_queue st) = Inr x
     \<and> sim_inv evs cap (retire_state st x)
     \<and> scheduled st \<subseteq> scheduled (retire_state st x)
     \<and> (act \<noteq> [] \<and> fst (hd act) = current_time st \<longrightarrow>
           scheduled st \<noteq> scheduled (retire_state st x))"
proof (induction act arbitrary: st)
  case Nil
  have "retire_state st ([], active_resources st, scheduled st, waiting st, ready_queue st) = st"
    using Nil.prems(2) by (simp add: retire_state_def)
  with Nil.prems show ?case by simp
next
  case (Cons a rest)
  obtain t c r where a: "a = (t, c, r)" by (cases a)
  show ?case
  proof (cases "t = current_time st")
    case False
    have "retire_state st (a # rest, active_resources st, scheduled st, waiting st, ready_queue st) = st"
      using Cons.prems(2) by (simp add: retire_state_def)
    with Cons.prems False a show ?thesis by simp
  next
    case True
    from Cons.prems(1) have p: "part_inv evs st" and ai: "act_inv evs st"
      by (simp_all add: sim_inv_def)
    from release_total [OF p, of c] obtain wt' rq'
      where rel: "release evs c (map fst (waiting st)) (waiting st, ready_queue st) = Inr (wt', rq')"
        and post: "release_post evs c (map fst (waiting st)) (waiting st) (ready_queue st) wt' rq'"
      by blast
    define s1 where "s1 = retire_one st c r rest wt' rq'"
    have act: "active_events st = (current_time st, c, r) # rest"
      using Cons.prems(2) a True by simp
    have inv1: "sim_inv evs cap s1"
      unfolding s1_def by (rule retire_one_inv [OF Cons.prems(1) act post])
    have s1: "active_events s1 = rest" "current_time s1 = current_time st"
      "active_resources s1 = active_resources st - r" "scheduled s1 = insert c (scheduled st)"
      "waiting s1 = wt'" "ready_queue s1 = rq'"
      by (simp_all add: s1_def retire_one_def)
    from Cons.IH [OF inv1 s1(1)] obtain x
      where x: "retire evs (current_time s1) rest
          (active_resources s1, scheduled s1, waiting s1, ready_queue s1) = Inr x"
        and ix: "sim_inv evs cap (retire_state s1 x)"
        and sx: "scheduled s1 \<subseteq> scheduled (retire_state s1 x)"
      by blast
    have eq: "retire_state s1 x = retire_state st x"
      unfolding s1_def by (rule retire_state_retire_one)
    have step: "retire evs (current_time st) (a # rest)
          (active_resources st, scheduled st, waiting st, ready_queue st) = Inr x"
      using x rel a True by (simp add: s1)
    from ai act have "c \<in> act_names st" by (force simp: act_names_def)
    with ai have "c \<notin> scheduled st" by (simp add: act_inv_def)
    moreover from sx have "c \<in> scheduled (retire_state st x)" by (simp add: eq s1)
    ultimately have neq: "scheduled st \<noteq> scheduled (retire_state st x)" by blast
    from sx have "scheduled st \<subseteq> scheduled (retire_state st x)" by (auto simp: eq s1)
    with step ix neq show ?thesis by (simp add: eq)
  qed
qed

lemma retire_state_fields:
  "sched (retire_state st x) = sched st" "current_time (retire_state st x) = current_time st"
  by (cases x; simp add: retire_state_def)+

lemma fold_max_ge: "(x::int) \<in> set (t # ts) \<Longrightarrow> x \<le> fold max ts t"
proof (induction ts arbitrary: t x)
  case Nil
  then show ?case by simp
next
  case (Cons a ts)
  have m: "max a t \<le> fold max ts (max a t)"
    by (rule Cons.IH) simp
  have "x \<in> set ts \<Longrightarrow> x \<le> fold max ts (max a t)"
    by (rule Cons.IH) simp
  with m show ?case using Cons.prems by auto
qed

lemma dep_end_times_ok:
  "\<forall>d\<in>set deps. map_of sch d \<noteq> None \<Longrightarrow>
   \<exists>ts. dep_end_times sch deps = Inr ts \<and> length ts = length deps
     \<and> (\<forall>d\<in>set deps. \<forall>sd ed. map_of sch d = Some (sd, ed) \<longrightarrow> ed \<in> set ts)"
proof (induction deps)
  case Nil
  then show ?case by simp
next
  case (Cons d deps)
  then obtain sd ed where d: "map_of sch d = Some (sd, ed)" by fastforce
  from Cons obtain ts where ts: "dep_end_times sch deps = Inr ts" "length ts = length deps"
    "\<forall>d\<in>set deps. \<forall>sd ed. map_of sch d = Some (sd, ed) \<longrightarrow> ed \<in> set ts"
    by auto
  have "dep_end_times sch (d # deps) = Inr (ed # ts)" using d ts(1) by simp
  moreover have "\<forall>d'\<in>set (d # deps). \<forall>sd' ed'. map_of sch d' = Some (sd', ed') \<longrightarrow> ed' \<in> set (ed # ts)"
    using d ts(3) by auto
  ultimately show ?case using ts(2) by auto
qed

lemma start_time_of_ok:
  assumes "\<forall>d\<in>set deps. map_of sch d \<noteq> None"
  shows "\<exists>start. start_time_of sch ct deps = Inr start \<and> ct \<le> start
     \<and> (\<forall>d\<in>set deps. \<forall>sd ed. map_of sch d = Some (sd, ed) \<longrightarrow> ed \<le> start)"
proof (cases "deps = []")
  case True
  then show ?thesis by (simp add: start_time_of_def)
next
  case False
  from dep_end_times_ok [OF assms] obtain ts where ts: "dep_end_times sch deps = Inr ts"
    "length ts = length deps"
    "\<forall>d\<in>set deps. \<forall>sd ed. map_of sch d = Some (sd, ed) \<longrightarrow> ed \<in> set ts"
    by blast
  from False ts(2) obtain t ts' where tt: "ts = t # ts'" by (cases ts) auto
  have s: "start_time_of sch ct deps = Inr (max ct (fold max ts' t))"
    using False ts(1) tt by (simp add: start_time_of_def)
  have "\<forall>d\<in>set deps. \<forall>sd ed. map_of sch d = Some (sd, ed) \<longrightarrow> ed \<le> max ct (fold max ts' t)"
  proof (intro ballI allI impI)
    fix d sd ed assume "d \<in> set deps" "map_of sch d = Some (sd, ed)"
    with ts(3) tt have "ed \<in> set (t # ts')" by blast
    from fold_max_ge [OF this] show "ed \<le> max ct (fold max ts' t)" by simp
  qed
  with s show ?thesis by simp
qed

lemma update_fresh: "k \<notin> fst ` set al \<Longrightarrow> AList.update k v al = al @ [(k, v)]"
  by (induction al) auto

lemma load_append: "load evs (sch @ [(n, s, e)]) t = load evs sch t + (if s \<le> t \<and> t < e then res_of evs n else 0)"
  by (simp add: load_def)

lemma sum_list_insort:
  "sum_list (map f (insort x xs)) = f x + sum_list (map f xs)"
  for f :: "'a::linorder \<Rightarrow> int"
  by (induction xs) auto

lemma filter_insort_plain:
  "sum_list (map f (filter P (insort x xs))) = (if P x then f x else 0) + sum_list (map f (filter P xs))"
  for f :: "'a::linorder \<Rightarrow> int"
  by (induction xs) auto

lemma running_heappush:
  "running t (heappush act (e, n, r)) = (if t < e then r else 0) + running t act"
  by (simp add: running_def heappush_def filter_insort_plain)

lemma running_le_total:
  "\<forall>(e, n, r)\<in>set act. 0 \<le> r \<Longrightarrow> running t act \<le> sum_list (map (snd \<circ> snd) act)"
  unfolding running_def by (induction act) auto

definition admit_one :: "sim_state \<Rightarrow> string \<Rightarrow> Event \<Rightarrow> int \<Rightarrow> (int \<times> string) list \<Rightarrow> sim_state" where
  "admit_one st n e start rq =
     st\<lparr>sched := AList.update n (start, start + duration e) (sched st),
        active_resources := active_resources st + resources_required e,
        active_events := heappush (active_events st) (start + duration e, n, resources_required e),
        ready_queue := rq\<rparr>"

lemma admit_one_part:
  assumes p: "part_inv evs st" and n: "n \<in> rq_names st"
    and rq: "snd ` set rq = rq_names st - {n}" "distinct (map snd rq)"
  shows "part_inv evs (admit_one st n e start rq)"
proof -
  from p have d: "distinct (map fst (waiting st))" "distinct (map fst (sched st))"
    and i1: "rq_names st \<inter> fst ` set (waiting st) = {}"
    and i2: "rq_names st \<inter> fst ` set (sched st) = {}"
    and i3: "fst ` set (waiting st) \<inter> fst ` set (sched st) = {}"
    and u: "rq_names st \<union> fst ` set (waiting st) \<union> fst ` set (sched st) = fst ` set evs"
    by (simp_all add: part_inv_def)
  let ?sch = "AList.update n (start, start + duration e) (sched st)"
  have K: "fst ` set ?sch = insert n (fst ` set (sched st))" by (simp add: dom_update)
  have d3: "distinct (map fst ?sch)" using d(2) by (simp add: distinct_update)
  have j1: "snd ` set rq \<inter> fst ` set (waiting st) = {}" unfolding rq(1) using i1 by blast
  have j2: "snd ` set rq \<inter> fst ` set ?sch = {}" unfolding rq(1) K using i2 by blast
  have j3: "fst ` set (waiting st) \<inter> fst ` set ?sch = {}" unfolding K using i3 i1 n by blast
  have j4: "snd ` set rq \<union> fst ` set (waiting st) \<union> fst ` set ?sch = fst ` set evs"
    unfolding rq(1) K using u n by blast
  show ?thesis
    unfolding part_inv_def admit_one_def rq_names_def
    using rq(2) d(1) d3 j1 j2 j3 j4 by simp
qed

lemma act_names_sub:
  assumes "act_inv evs st" shows "act_names st \<subseteq> fst ` set (sched st)"
proof
  fix m assume "m \<in> act_names st"
  then obtain e r where "(e, m, r) \<in> set (active_events st)" by (force simp: act_names_def)
  with assms obtain s where "map_of (sched st) m = Some (s, e)" by (auto simp: act_inv_def)
  then show "m \<in> fst ` set (sched st)" by (auto simp: fst_set_conv_dom)
qed

lemma admit_one_act:
  assumes p: "part_inv evs st" and a: "act_inv evs st" and n: "n \<in> rq_names st"
    and e: "map_of evs n = Some e"
  shows "act_inv evs (admit_one st n e start rq)"
proof -
  from p n have nK: "n \<notin> fst ` set (sched st)" by (auto simp: part_inv_def)
  with act_names_sub [OF a] have nA: "n \<notin> act_names st" by blast
  let ?sch = "AList.update n (start, start + duration e) (sched st)"
  let ?x = "(start + duration e, n, resources_required e)"
  let ?act = "heappush (active_events st) ?x"
  from a have d: "distinct (map (fst \<circ> snd) (active_events st))" and s: "sorted (active_events st)"
    and en: "\<forall>(e, n, r)\<in>set (active_events st). r = res_of evs n \<and> (\<exists>s. map_of (sched st) n = Some (s, e))"
    and sc: "scheduled st = fst ` set (sched st) - act_names st"
    by (simp_all add: act_inv_def)
  have 1: "distinct (map (fst \<circ> snd) ?act)"
    using d nA by (simp add: distinct_map_heappush act_names_def)
  have 2: "sorted ?act" using s by (rule sorted_heappush)
  have 3: "\<forall>(e', m, r)\<in>set ?act. r = res_of evs m \<and> (\<exists>s. map_of ?sch m = Some (s, e'))"
  proof (intro ballI, clarify)
    fix e' m r assume "(e', m, r) \<in> set ?act"
    then consider "(e', m, r) = ?x" | "(e', m, r) \<in> set (active_events st)"
      by (auto simp: set_heappush)
    then show "r = res_of evs m \<and> (\<exists>s. map_of ?sch m = Some (s, e'))"
    proof cases
      case 1
      then show ?thesis using e by (simp add: res_of_def map_of_update)
    next
      case 2
      then have "m \<in> act_names st" by (force simp: act_names_def)
      with nA have "m \<noteq> n" by blast
      with 2 en show ?thesis by (auto simp: map_of_update)
    qed
  qed
  have 4: "scheduled st = fst ` set ?sch - (fst \<circ> snd) ` set ?act"
    unfolding sc using nK by (auto simp: dom_update set_heappush act_names_def)
  show ?thesis
    unfolding act_inv_def admit_one_def act_names_def using 1 2 3 4 by simp
qed

lemma admit_one_wait:
  assumes w: "wait_inv evs st" and rq: "snd ` set rq = rq_names st - {n}"
  shows "wait_inv evs (admit_one st n e start rq)"
  using w rq unfolding wait_inv_def admit_one_def rq_names_def by auto

lemma admit_one_order:
  assumes p: "part_inv evs st" and a: "act_inv evs st" and w: "wait_inv evs st"
    and o: "order_inv evs st" and n: "n \<in> rq_names st"
    and start: "\<forall>d\<in>set (deps_of evs n). \<forall>sd ed. map_of (sched st) d = Some (sd, ed) \<longrightarrow> ed \<le> start"
  shows "order_inv evs (admit_one st n e start rq)"
proof -
  from p n have nK: "n \<notin> fst ` set (sched st)" by (auto simp: part_inv_def)
  let ?sch = "AList.update n (start, start + duration e) (sched st)"
  from w n have dn: "set (deps_of evs n) \<subseteq> scheduled st" by (simp add: wait_inv_def)
  from a have "scheduled st \<subseteq> fst ` set (sched st)" by (auto simp: act_inv_def)
  with dn have dK: "set (deps_of evs n) \<subseteq> fst ` set (sched st)" by blast
  have "\<forall>m s e'. map_of ?sch m = Some (s, e') \<longrightarrow>
        (\<forall>d\<in>set (deps_of evs m). \<exists>sd ed. map_of ?sch d = Some (sd, ed) \<and> ed \<le> s)"
  proof (intro allI impI ballI)
    fix m s e' d assume m: "map_of ?sch m = Some (s, e')" and d: "d \<in> set (deps_of evs m)"
    show "\<exists>sd ed. map_of ?sch d = Some (sd, ed) \<and> ed \<le> s"
    proof (cases "m = n")
      case True
      with m have s: "s = start" by (simp add: map_of_update)
      from d True dK have "d \<in> fst ` set (sched st)" by blast
      then obtain sd ed where sd: "map_of (sched st) d = Some (sd, ed)"
        by (auto simp: fst_set_conv_dom)
      with nK have "d \<noteq> n" by (auto simp: fst_set_conv_dom)
      with sd have "map_of ?sch d = Some (sd, ed)" by (simp add: map_of_update)
      moreover from start d True sd have "ed \<le> start" by blast
      ultimately show ?thesis using s by blast
    next
      case False
      with m have "map_of (sched st) m = Some (s, e')" by (simp add: map_of_update)
      with o d obtain sd ed where sd: "map_of (sched st) d = Some (sd, ed)" "ed \<le> s"
        unfolding order_inv_def by blast
      with nK have "d \<noteq> n" by (auto simp: fst_set_conv_dom)
      with sd show ?thesis by (auto simp: map_of_update)
    qed
  qed
  then show ?thesis unfolding order_inv_def admit_one_def by simp
qed

lemma admit_one_res:
  assumes nums: "wf_nums evs cap" and r: "res_inv evs cap st" and p: "part_inv evs st"
    and n: "n \<in> rq_names st" and e: "map_of evs n = Some e"
    and fits: "active_resources st + resources_required e \<le> cap"
    and start: "current_time st \<le> start"
  shows "res_inv evs cap (admit_one st n e start rq)"
proof -
  from p n have nK: "n \<notin> fst ` set (sched st)" by (auto simp: part_inv_def)
  from e have "(n, e) \<in> set evs" by (rule map_of_SomeD)
  with nums have dur: "0 \<le> duration e" and res: "0 \<le> resources_required e"
    by (auto simp: wf_nums_def)
  let ?end = "start + duration e"
  let ?sch = "AList.update n (start, ?end) (sched st)"
  let ?x = "(?end, n, resources_required e)"
  let ?act = "heappush (active_events st) ?x"
  from r have 1: "active_resources st = sum_list (map (snd \<circ> snd) (active_events st))"
    and 3: "\<forall>(e, n, r)\<in>set (active_events st). current_time st \<le> e \<and> 0 \<le> r"
    and 4: "\<forall>t. load evs (sched st) t \<le> cap"
    and 5: "\<forall>t\<ge>current_time st. load evs (sched st) t \<le> running t (active_events st)"
    by (simp_all add: res_inv_def)
  have sch: "?sch = sched st @ [(n, start, ?end)]" by (rule update_fresh [OF nK])
  have rn: "res_of evs n = resources_required e" using e by (simp add: res_of_def)
  have a1: "active_resources st + resources_required e = sum_list (map (snd \<circ> snd) ?act)"
    using 1 by (simp add: heappush_def sum_list_insort)
  have a3: "\<forall>(e', m, r)\<in>set ?act. current_time st \<le> e' \<and> 0 \<le> r"
    using 3 start dur res by (auto simp: set_heappush)
  have a5: "\<forall>t\<ge>current_time st. load evs ?sch t \<le> running t ?act"
  proof (intro allI impI)
    fix t assume "current_time st \<le> t"
    with 5 have "load evs (sched st) t \<le> running t (active_events st)" by simp
    then show "load evs ?sch t \<le> running t ?act"
      unfolding sch load_append running_heappush rn using res by auto
  qed
  have a4: "\<forall>t. load evs ?sch t \<le> cap"
  proof
    fix t
    show "load evs ?sch t \<le> cap"
    proof (cases "current_time st \<le> t")
      case True
      with a5 have "load evs ?sch t \<le> running t ?act" by simp
      also have "\<dots> \<le> sum_list (map (snd \<circ> snd) ?act)"
        by (rule running_le_total) (use a3 in auto)
      also have "\<dots> \<le> cap" using a1 fits by simp
      finally show ?thesis .
    next
      case False
      with start have "\<not> start \<le> t" by simp
      then have "load evs ?sch t = load evs (sched st) t"
        unfolding sch load_append by simp
      with 4 show ?thesis by simp
    qed
  qed
  show ?thesis
    unfolding res_inv_def admit_one_def using a1 fits a3 a4 a5 by simp
qed

definition admit_state ::
  "sim_state \<Rightarrow> (string \<times> int \<times> int) list \<times> int \<times> (int \<times> string \<times> int) list \<times> (int \<times> string) list \<times> bool
    \<Rightarrow> sim_state" where
  "admit_state st x =
     (case x of (sch', ar', act', temp', flag') \<Rightarrow>
        st\<lparr>sched := sch', active_resources := ar', active_events := act', ready_queue := temp'\<rparr>)"

lemma sim_inv_ready_queue:
  assumes inv: "sim_inv evs cap st" and rq: "set rq' = set (ready_queue st)"
    and d: "distinct (map snd rq')"
  shows "sim_inv evs cap (st\<lparr>ready_queue := rq'\<rparr>)"
proof -
  let ?st = "st\<lparr>ready_queue := rq'\<rparr>"
  have n: "rq_names ?st = rq_names st" using rq by (simp add: rq_names_def)
  have a: "act_names ?st = act_names st" by (simp add: act_names_def)
  from inv have "part_inv evs st" by (simp add: sim_inv_def)
  then have 1: "part_inv evs ?st" unfolding part_inv_def n using d by simp
  from inv have "act_inv evs st" by (simp add: sim_inv_def)
  then have 2: "act_inv evs ?st" unfolding act_inv_def a by simp
  from inv have "wait_inv evs st" by (simp add: sim_inv_def)
  then have 3: "wait_inv evs ?st" unfolding wait_inv_def n by simp
  from inv have "order_inv evs st" by (simp add: sim_inv_def)
  then have 4: "order_inv evs ?st" unfolding order_inv_def by simp
  from inv have "wf_nums evs cap \<longrightarrow> res_inv evs cap st" by (simp add: sim_inv_def)
  then have 5: "wf_nums evs cap \<longrightarrow> res_inv evs cap ?st" by (auto simp: res_inv_def)
  from 1 2 3 4 5 show ?thesis unfolding sim_inv_def by blast
qed

lemma admit_one_inv:
  assumes inv: "sim_inv evs cap st" and n: "n \<in> rq_names st" and e: "map_of evs n = Some e"
    and rq: "snd ` set rq = rq_names st - {n}" "distinct (map snd rq)"
    and fits: "active_resources st + resources_required e \<le> cap"
    and start: "current_time st \<le> start"
      "\<forall>d\<in>set (deps_of evs n). \<forall>sd ed. map_of (sched st) d = Some (sd, ed) \<longrightarrow> ed \<le> start"
  shows "sim_inv evs cap (admit_one st n e start rq)"
proof -
  from inv have p: "part_inv evs st" and a: "act_inv evs st" and w: "wait_inv evs st"
    and o: "order_inv evs st" and r: "wf_nums evs cap \<longrightarrow> res_inv evs cap st"
    by (simp_all add: sim_inv_def)
  note admit_one_part [OF p n rq] admit_one_act [OF p a n e] admit_one_wait [OF w rq(1)]
    admit_one_order [OF p a w o n start(2)]
  moreover have "wf_nums evs cap \<longrightarrow> res_inv evs cap (admit_one st n e start rq)"
    using r admit_one_res [OF _ _ p n e fits start(1)] by blast
  ultimately show ?thesis unfolding sim_inv_def by blast
qed

lemma admit_state_admit_one:
  "admit_state (admit_one st n e start rq) x = admit_state st x"
  by (cases x) (simp add: admit_state_def admit_one_def)

lemma admit_inv:
  "sim_inv evs cap st \<Longrightarrow> ready_queue st = rq @ temp \<Longrightarrow> (flag \<longrightarrow> active_events st \<noteq> []) \<Longrightarrow>
   \<exists>x. admit evs cap (current_time st) rq
          (sched st, active_resources st, active_events st, temp, flag) = Inr x
     \<and> sim_inv evs cap (admit_state st x)
     \<and> (snd (snd (snd (snd x))) \<longrightarrow> active_events (admit_state st x) \<noteq> [])"
proof (induction rq arbitrary: st temp flag)
  case Nil
  define x where "x = (sched st, active_resources st, active_events st, temp, flag)"
  have eq: "admit_state st x = st"
    using Nil.prems(2) by (simp add: admit_state_def x_def)
  have "admit evs cap (current_time st) [] x = Inr x" by simp
  moreover have "sim_inv evs cap (admit_state st x)" using Nil.prems(1) eq by simp
  moreover have "snd (snd (snd (snd x))) \<longrightarrow> active_events (admit_state st x) \<noteq> []"
    unfolding eq using Nil.prems(3) by (simp add: x_def)
  ultimately show ?case unfolding x_def by blast
next
  case (Cons a rq)
  obtain p n where a: "a = (p, n)" by (cases a)
  from Cons.prems(1) have pi: "part_inv evs st" and ai: "act_inv evs st" and wi: "wait_inv evs st"
    by (simp_all add: sim_inv_def)
  from Cons.prems(2) a have n: "n \<in> rq_names st" by (simp add: rq_names_def)
  with pi have "n \<in> fst ` set evs" by (auto simp: part_inv_def)
  then obtain e where e: "map_of evs n = Some e"
    by (metis map_of_None_iff not_None_eq)
  from pi have "distinct (map snd (ready_queue st))" by (simp add: part_inv_def)
  with Cons.prems(2) a have dq: "distinct (map snd (rq @ temp))" "n \<notin> snd ` set (rq @ temp)"
    by auto
  show ?case
  proof (cases "active_resources st + resources_required e \<le> cap")
    case True
    have dn: "deps_of evs n = dependencies e" using e by (simp add: deps_of_def)
    from wi n have "set (deps_of evs n) \<subseteq> scheduled st" by (simp add: wait_inv_def)
    moreover from ai have "scheduled st \<subseteq> fst ` set (sched st)" by (auto simp: act_inv_def)
    ultimately have "\<forall>d\<in>set (dependencies e). map_of (sched st) d \<noteq> None"
      unfolding dn by (auto simp: map_of_None_iff)
    from start_time_of_ok [OF this, of "current_time st"] obtain start
      where st: "start_time_of (sched st) (current_time st) (dependencies e) = Inr start"
        and ge: "current_time st \<le> start"
        and de: "\<forall>d\<in>set (deps_of evs n). \<forall>sd ed. map_of (sched st) d = Some (sd, ed) \<longrightarrow> ed \<le> start"
      unfolding dn by blast
    define s1 where "s1 = admit_one st n e start (rq @ temp)"
    have rqn: "snd ` set (rq @ temp) = rq_names st - {n}"
      using Cons.prems(2) a dq(2) by (auto simp: rq_names_def)
    have inv1: "sim_inv evs cap s1"
      unfolding s1_def by (rule admit_one_inv [OF Cons.prems(1) n e rqn dq(1) True ge de])
    have s1: "ready_queue s1 = rq @ temp" "current_time s1 = current_time st"
      "sched s1 = AList.update n (start, start + duration e) (sched st)"
      "active_resources s1 = active_resources st + resources_required e"
      "active_events s1 = heappush (active_events st) (start + duration e, n, resources_required e)"
      by (simp_all add: s1_def admit_one_def)
    have ne: "True \<longrightarrow> active_events s1 \<noteq> []"
      unfolding s1(5) by (metis empty_iff insertI1 list.set(1) set_heappush)
    from Cons.IH [OF inv1 s1(1) ne] obtain x
      where x: "admit evs cap (current_time s1) rq
          (sched s1, active_resources s1, active_events s1, temp, True) = Inr x"
        and ix: "sim_inv evs cap (admit_state s1 x)"
        and fx: "snd (snd (snd (snd x))) \<longrightarrow> active_events (admit_state s1 x) \<noteq> []"
      by blast
    have eq: "admit_state s1 x = admit_state st x"
      unfolding s1_def by (rule admit_state_admit_one)
    have "admit evs cap (current_time st) (a # rq)
          (sched st, active_resources st, active_events st, temp, flag) = Inr x"
      using x a e True st by (simp add: s1 Let_def)
    with ix fx show ?thesis by (simp add: eq)
  next
    case False
    define s1 where "s1 = st\<lparr>ready_queue := rq @ (temp @ [(p, n)])\<rparr>"
    have "set (rq @ (temp @ [(p, n)])) = set (ready_queue st)"
      using Cons.prems(2) a by auto
    moreover have "distinct (map snd (rq @ (temp @ [(p, n)])))"
      using dq by auto
    ultimately have inv1: "sim_inv evs cap s1"
      unfolding s1_def by (rule sim_inv_ready_queue [OF Cons.prems(1)])
    have s1: "ready_queue s1 = rq @ (temp @ [(p, n)])" "current_time s1 = current_time st"
      "sched s1 = sched st" "active_resources s1 = active_resources st"
      "active_events s1 = active_events st"
      by (simp_all add: s1_def)
    have fl: "flag \<longrightarrow> active_events s1 \<noteq> []" using Cons.prems(3) by (simp add: s1)
    from Cons.IH [OF inv1 s1(1) fl] obtain x
      where x: "admit evs cap (current_time s1) rq
          (sched s1, active_resources s1, active_events s1, temp @ [(p, n)], flag) = Inr x"
        and ix: "sim_inv evs cap (admit_state s1 x)"
        and fx: "snd (snd (snd (snd x))) \<longrightarrow> active_events (admit_state s1 x) \<noteq> []"
      by blast
    have eq: "admit_state s1 x = admit_state st x"
      unfolding s1_def by (cases x) (simp add: admit_state_def)
    have "admit evs cap (current_time st) (a # rq)
          (sched st, active_resources st, active_events st, temp, flag) = Inr x"
      using x a e False by (simp add: s1)
    with ix fx show ?thesis by (simp add: eq)
  qed
qed

definition head_now :: "sim_state \<Rightarrow> bool" where
  "head_now st \<longleftrightarrow> active_events st = [] \<or> fst (hd (active_events st)) = current_time st"

lemma distinct_map_foldl_heappush:
  "distinct (map f (foldl heappush h xs)) = distinct (map f (xs @ h))"
proof (induction xs arbitrary: h)
  case Nil
  then show ?case by simp
next
  case (Cons x xs)
  show ?case
    by (simp add: Cons.IH distinct_map_heappush set_heappush) blast
qed

lemma sorted_head_le:
  fixes x :: "int \<times> string \<times> int"
  assumes "sorted (x # xs)" and "y \<in> set (x # xs)"
  shows "fst x \<le> fst y"
proof -
  from assms have "x \<le> y" by auto
  then show ?thesis by (auto simp: less_eq_prod_def)
qed

lemma sim_inv_advance:
  assumes inv: "sim_inv evs cap st" and act: "active_events st = x # rest"
  shows "sim_inv evs cap (st\<lparr>current_time := fst x\<rparr>)"
proof -
  let ?st = "st\<lparr>current_time := fst x\<rparr>"
  from inv have "part_inv evs st" by (simp add: sim_inv_def)
  then have 1: "part_inv evs ?st" by (simp add: part_inv_def rq_names_def)
  from inv have a: "act_inv evs st" by (simp add: sim_inv_def)
  then have 2: "act_inv evs ?st" by (simp add: act_inv_def act_names_def)
  from inv have "wait_inv evs st" by (simp add: sim_inv_def)
  then have 3: "wait_inv evs ?st" by (simp add: wait_inv_def rq_names_def)
  from inv have "order_inv evs st" by (simp add: sim_inv_def)
  then have 4: "order_inv evs ?st" by (simp add: order_inv_def)
  have 5: "wf_nums evs cap \<longrightarrow> res_inv evs cap ?st"
  proof
    assume "wf_nums evs cap"
    with inv have r: "res_inv evs cap st" by (simp add: sim_inv_def)
    from a act have so: "sorted (x # rest)" by (simp add: act_inv_def)
    from r act have ge: "current_time st \<le> fst x" by (auto simp: res_inv_def)
    have n2: "\<forall>(e, n, r)\<in>set (active_events st). fst x \<le> e \<and> 0 \<le> r"
    proof (intro ballI, clarify)
      fix e n r' assume m: "(e, n, r') \<in> set (active_events st)"
      with act sorted_head_le [OF so, of "(e, n, r')"] have "fst x \<le> e" by simp
      moreover from r m have "0 \<le> r'" by (auto simp: res_inv_def)
      ultimately show "fst x \<le> e \<and> 0 \<le> r'" by simp
    qed
    from r ge have n5: "\<forall>t\<ge>fst x. load evs (sched st) t \<le> running t (active_events st)"
      by (auto simp: res_inv_def)
    from r n2 n5 show "res_inv evs cap ?st" by (simp add: res_inv_def)
  qed
  from 1 2 3 4 5 show ?thesis unfolding sim_inv_def by blast
qed

lemma retire_state_simps:
  "active_events (retire_state st (act', ar', fin', wt', rq')) = act'"
  "active_resources (retire_state st (act', ar', fin', wt', rq')) = ar'"
  "scheduled (retire_state st (act', ar', fin', wt', rq')) = fin'"
  "waiting (retire_state st (act', ar', fin', wt', rq')) = wt'"
  "ready_queue (retire_state st (act', ar', fin', wt', rq')) = rq'"
  "sched (retire_state st (act', ar', fin', wt', rq')) = sched st"
  "current_time (retire_state st (act', ar', fin', wt', rq')) = current_time st"
  by (simp_all add: retire_state_def)

lemma admit_state_simps:
  "sched (admit_state st (sch', ar', act', temp', flag')) = sch'"
  "active_resources (admit_state st (sch', ar', act', temp', flag')) = ar'"
  "active_events (admit_state st (sch', ar', act', temp', flag')) = act'"
  "ready_queue (admit_state st (sch', ar', act', temp', flag')) = temp'"
  "scheduled (admit_state st (sch', ar', act', temp', flag')) = scheduled st"
  "waiting (admit_state st (sch', ar', act', temp', flag')) = waiting st"
  "current_time (admit_state st (sch', ar', act', temp', flag')) = current_time st"
  by (simp_all add: admit_state_def)

lemma sim_round_inv:
  assumes inv: "sim_inv evs cap st" and hn: "head_now st"
  shows "\<exists>st' stop. sim_round evs cap st = Inr (st', stop)
     \<and> sim_inv evs cap st' \<and> head_now st'
     \<and> scheduled st \<subseteq> scheduled st'
     \<and> (active_events st \<noteq> [] \<longrightarrow> scheduled st \<noteq> scheduled st')
     \<and> (\<not> stop \<and> active_events st' = [] \<longrightarrow> ready_queue st' = [])"
proof -
  from retire_inv [OF inv refl] obtain x0
    where r0: "retire evs (current_time st) (active_events st)
          (active_resources st, scheduled st, waiting st, ready_queue st) = Inr x0"
      and i0: "sim_inv evs cap (retire_state st x0)"
      and s0: "scheduled st \<subseteq> scheduled (retire_state st x0)"
      and n0: "active_events st \<noteq> [] \<and> fst (hd (active_events st)) = current_time st \<longrightarrow>
           scheduled st \<noteq> scheduled (retire_state st x0)"
    by blast
  obtain act1 ar1 fin1 wt1 rq1 where x0: "x0 = (act1, ar1, fin1, wt1, rq1)" by (cases x0)
  define s1 where "s1 = retire_state st x0"
  note f1 = retire_state_simps [of st act1 ar1 fin1 wt1 rq1, folded x0 s1_def]
  have "ready_queue s1 = rq1 @ []" by (simp add: f1)
  from admit_inv [OF i0 [folded s1_def] this, of False] obtain x1
    where r1: "admit evs cap (current_time s1) rq1
          (sched s1, active_resources s1, active_events s1, [], False) = Inr x1"
      and i1: "sim_inv evs cap (admit_state s1 x1)"
      and fl: "snd (snd (snd (snd x1))) \<longrightarrow> active_events (admit_state s1 x1) \<noteq> []"
    by auto
  obtain sch2 ar2 act2 temp2 flag2 where x1: "x1 = (sch2, ar2, act2, temp2, flag2)" by (cases x1)
  define s2 where "s2 = admit_state s1 x1"
  note f2 = admit_state_simps [of s1 sch2 ar2 act2 temp2 flag2, folded x1 s2_def]
  define rq2 where "rq2 = foldl heappush [] temp2"
  define s3 where "s3 = s2\<lparr>ready_queue := rq2\<rparr>"
  from i1 have "part_inv evs s2" by (simp add: sim_inv_def s2_def)
  then have "distinct (map snd temp2)" by (simp add: part_inv_def f2)
  then have "distinct (map snd rq2)" by (simp add: rq2_def distinct_map_foldl_heappush)
  moreover have "set rq2 = set (ready_queue s2)" by (simp add: rq2_def set_foldl_heappush f2)
  ultimately have i3: "sim_inv evs cap s3"
    unfolding s3_def by (intro sim_inv_ready_queue [OF i1 [folded s2_def]])
  have s3: "s3 = \<lparr>sched = sch2, scheduled = fin1, ready_queue = rq2, waiting = wt1,
                  current_time = current_time st, active_resources = ar2,
                  active_events = act2\<rparr>"
    by (simp add: s3_def f2 f1)
  have f3: "active_events s3 = act2" "scheduled s3 = fin1" "ready_queue s3 = rq2"
    by (simp_all add: s3)
  have sc: "scheduled st \<subseteq> fin1" using s0 by (simp add: x0 retire_state_simps)
  have ne: "active_events st \<noteq> [] \<longrightarrow> scheduled st \<noteq> fin1"
    using n0 hn by (auto simp: x0 retire_state_simps head_now_def)
  have fl2: "flag2 \<longrightarrow> act2 \<noteq> []" using fl by (simp add: x1 admit_state_simps)
  have r0': "retire evs (current_time st) (active_events st)
          (active_resources st, scheduled st, waiting st, ready_queue st)
        = Inr (act1, ar1, fin1, wt1, rq1)" using r0 x0 by simp
  have r1': "admit evs cap (current_time st) rq1 (sched st, ar1, act1, [], False)
        = Inr (sch2, ar2, act2, temp2, flag2)" using r1 x1 by (simp add: f1)
  show ?thesis
  proof (cases act2)
    case Nil
    have "sim_round evs cap st = Inr (s3, rq2 \<noteq> [] \<and> \<not> flag2)"
      unfolding sim_round_def r0' using r1' Nil by (simp add: rq2_def s3 Let_def)
    moreover have "head_now s3" by (simp add: head_now_def f3 Nil)
    moreover have "\<not> (rq2 \<noteq> [] \<and> \<not> flag2) \<and> active_events s3 = [] \<longrightarrow> ready_queue s3 = []"
      using fl2 Nil by (auto simp: f3)
    ultimately show ?thesis using i3 sc ne by (auto simp: f3)
  next
    case (Cons y rest)
    obtain t z where y: "y = (t, z)" by (cases y)
    have "sim_round evs cap st = Inr (s3\<lparr>current_time := t\<rparr>, False)"
      unfolding sim_round_def r0' using r1' Cons y by (simp add: rq2_def s3 Let_def)
    moreover have "sim_inv evs cap (s3\<lparr>current_time := t\<rparr>)"
      using sim_inv_advance [OF i3, of y rest] Cons y by (simp add: f3)
    moreover have "head_now (s3\<lparr>current_time := t\<rparr>)"
      by (simp add: head_now_def f3 Cons y)
    ultimately show ?thesis using sc ne Cons by (auto simp: f3)
  qed
qed

lemma finite_dep_rel: "finite (dep_rel evs)"
proof -
  have "dep_rel evs \<subseteq> (\<Union>(n, e)\<in>set evs. (\<lambda>d. (d, n)) ` set (dependencies e))"
    by (auto simp: dep_rel_def)
  moreover have "finite (\<Union>(n, e)\<in>set evs. (\<lambda>d. (d, n)) ` set (dependencies e))" by auto
  ultimately show ?thesis by (rule finite_subset)
qed

lemma not_stuck:
  assumes dist: "distinct (map fst evs)" and res: "resolved evs" and acyc: "acyclic (dep_rel evs)"
    and inv: "sim_inv evs cap st"
    and r: "ready_queue st = []" and a: "active_events st = []"
  shows "waiting st = []"
proof (rule ccontr)
  assume "waiting st \<noteq> []"
  then obtain w0 where w0: "w0 \<in> fst ` set (waiting st)" by (cases "waiting st") auto
  from inv have p: "part_inv evs st" and ai: "act_inv evs st" and wi: "wait_inv evs st"
    by (simp_all add: sim_inv_def)
  from acyc have "wf (dep_rel evs)" by (rule finite_acyclic_wf [OF finite_dep_rel])
  from wfE_min [OF this w0] obtain m where m: "m \<in> fst ` set (waiting st)"
    and min: "\<And>d. (d, m) \<in> dep_rel evs \<Longrightarrow> d \<notin> fst ` set (waiting st)" by blast
  from m obtain S where S: "map_of (waiting st) m = Some S"
    by (auto simp: fst_set_conv_dom)
  with wi have "S \<noteq> {}" "S = set (deps_of evs m) - scheduled st" by (auto simp: wait_inv_def)
  then obtain d where d: "d \<in> set (deps_of evs m)" "d \<notin> scheduled st" by blast
  from ai a have sc: "scheduled st = fst ` set (sched st)" by (simp add: act_inv_def act_names_def)
  from p r have names: "fst ` set (waiting st) \<union> fst ` set (sched st) = fst ` set evs"
    by (simp add: part_inv_def rq_names_def)
  with m obtain e where e: "(m, e) \<in> set evs" by force
  with d(1) dist have de: "d \<in> set (dependencies e)" by (simp add: deps_of_mem)
  with e have "(d, m) \<in> dep_rel evs" by (auto simp: dep_rel_def)
  from min [OF this] have "d \<notin> fst ` set (waiting st)" .
  moreover from res e de have "d \<in> fst ` set evs" by (auto simp: resolved_iff)
  ultimately have "d \<in> fst ` set (sched st)" using names by blast
  with d(2) sc show False by simp
qed

definition sim_measure :: "(string \<times> Event) list \<Rightarrow> sim_state \<Rightarrow> nat" where
  "sim_measure evs st =
     2 * card (fst ` set evs - scheduled st) + (if active_events st = [] then 1 else 0)"

lemma scheduled_names:
  assumes "sim_inv evs cap st" shows "scheduled st \<subseteq> fst ` set evs"
proof -
  from assms have "part_inv evs st" "act_inv evs st" by (simp_all add: sim_inv_def)
  then show ?thesis by (auto simp: part_inv_def act_inv_def)
qed

lemma sim_loop_total:
  assumes dist: "distinct (map fst evs)" and res: "resolved evs" and acyc: "acyclic (dep_rel evs)"
  shows "sim_inv evs cap st \<Longrightarrow> head_now st \<Longrightarrow>
    \<exists>st'. sim_loop evs cap st = Some (Inr st') \<and> sim_inv evs cap st'"
proof (induction "sim_measure evs st" arbitrary: st rule: less_induct)
  case less
  show ?case
  proof (cases "ready_queue st = [] \<and> active_events st = [] \<and> waiting st = []")
    case True
    then have "sim_loop evs cap st = Some (Inr st)" by (subst sim_loop.simps) simp
    with less.prems show ?thesis by blast
  next
    case False
    from sim_round_inv [OF less.prems] obtain st' stop
      where rd: "sim_round evs cap st = Inr (st', stop)"
        and i': "sim_inv evs cap st'" and h': "head_now st'"
        and sub: "scheduled st \<subseteq> scheduled st'"
        and ne: "active_events st \<noteq> [] \<longrightarrow> scheduled st \<noteq> scheduled st'"
        and em: "\<not> stop \<and> active_events st' = [] \<longrightarrow> ready_queue st' = []"
      by blast
    have unfold: "sim_loop evs cap st = (if stop then Some (Inr st') else sim_loop evs cap st')"
      by (subst sim_loop.simps, subst if_not_P [OF False]) (simp add: rd)
    show ?thesis
    proof (cases stop)
      case True
      with unfold i' show ?thesis by auto
    next
      case stop: False
      have fin: "finite (fst ` set evs - scheduled st)" by simp
      have le: "card (fst ` set evs - scheduled st') \<le> card (fst ` set evs - scheduled st)"
        using sub by (intro card_mono) auto
      show ?thesis
      proof (cases "active_events st' = [] \<and> active_events st = []")
        case True
        with em stop have "ready_queue st' = []" by simp
        moreover from not_stuck [OF dist res acyc i' this] True have "waiting st' = []" by simp
        ultimately have "sim_loop evs cap st' = Some (Inr st')"
          using True by (subst sim_loop.simps) simp
        with unfold stop i' show ?thesis by auto
      next
        case False
        have "sim_measure evs st' < sim_measure evs st"
        proof (cases "active_events st = []")
          case True
          with False have "active_events st' \<noteq> []" by simp
          with True le show ?thesis by (simp add: sim_measure_def)
        next
          case ne': False
          with ne have "scheduled st \<noteq> scheduled st'" by simp
          with sub have "scheduled st \<subset> scheduled st'" by blast
          moreover have "scheduled st' \<subseteq> fst ` set evs" by (rule scheduled_names [OF i'])
          ultimately have "fst ` set evs - scheduled st' \<subset> fst ` set evs - scheduled st" by blast
          from psubset_card_mono [OF fin this] ne' show ?thesis
            by (simp add: sim_measure_def)
        qed
        from less.hyps [OF this i' h'] unfold stop show ?thesis by simp
      qed
    qed
  qed
qed

definition partition_post ::
  "(string \<times> Event) list \<Rightarrow> string list \<Rightarrow> (int \<times> string) list \<Rightarrow> (string \<times> string set) list
    \<Rightarrow> (int \<times> string) list \<Rightarrow> (string \<times> string set) list \<Rightarrow> bool" where
  "partition_post evs order rq0 wt0 rq wt \<longleftrightarrow>
     snd ` set rq = snd ` set rq0 \<union> {n \<in> set order. deps_of evs n = []}
     \<and> (distinct (map snd rq0) \<and> snd ` set rq0 \<inter> set order = {} \<longrightarrow> distinct (map snd rq))
     \<and> map_of wt = (\<lambda>n. if n \<in> set order \<and> deps_of evs n \<noteq> []
                        then Some (set (deps_of evs n)) else map_of wt0 n)
     \<and> (distinct (map fst wt0) \<longrightarrow> distinct (map fst wt))"

lemma partition_events_ok:
  assumes "\<forall>n\<in>set order. map_of evs n \<noteq> None" and "distinct order"
  shows "\<exists>rq wt. partition_events evs order (rq0, wt0) = Inr (rq, wt)
     \<and> partition_post evs order rq0 wt0 rq wt"
  using assms
proof (induction order arbitrary: rq0 wt0)
  case Nil
  then show ?case by (simp add: partition_post_def)
next
  case (Cons n order)
  from Cons.prems obtain e where e: "map_of evs n = Some e" by auto
  from Cons.prems have reg: "\<forall>n\<in>set order. map_of evs n \<noteq> None" and d: "distinct order"
    and nn: "n \<notin> set order" by auto
  have dn: "deps_of evs n = dependencies e" using e by (simp add: deps_of_def)
  show ?case
  proof (cases "dependencies e = []")
    case True
    define rq1 where "rq1 = heappush rq0 (priority e, n)"
    from Cons.IH [OF reg d, of rq1 wt0] obtain rq wt
      where r: "partition_events evs order (rq1, wt0) = Inr (rq, wt)"
        and p: "partition_post evs order rq1 wt0 rq wt" by blast
    have step: "partition_events evs (n # order) (rq0, wt0) = Inr (rq, wt)"
      using e True r by (simp add: rq1_def)
    have 1: "snd ` set rq = snd ` set rq0 \<union> {m \<in> set (n # order). deps_of evs m = []}"
      using p True dn by (auto simp: partition_post_def rq1_def set_heappush)
    have 2: "distinct (map snd rq0) \<and> snd ` set rq0 \<inter> set (n # order) = {} \<longrightarrow> distinct (map snd rq)"
    proof
      assume a: "distinct (map snd rq0) \<and> snd ` set rq0 \<inter> set (n # order) = {}"
      then have "distinct (map snd rq1)" by (auto simp: rq1_def distinct_map_heappush)
      moreover have "snd ` set rq1 \<inter> set order = {}"
        using a nn by (auto simp: rq1_def set_heappush)
      ultimately show "distinct (map snd rq)" using p by (simp add: partition_post_def)
    qed
    have 3: "map_of wt = (\<lambda>m. if m \<in> set (n # order) \<and> deps_of evs m \<noteq> []
                        then Some (set (deps_of evs m)) else map_of wt0 m)"
      using p True dn by (auto simp: partition_post_def fun_eq_iff)
    have 4: "distinct (map fst wt0) \<longrightarrow> distinct (map fst wt)"
      using p by (simp add: partition_post_def)
    from 1 2 3 4 have "partition_post evs (n # order) rq0 wt0 rq wt"
      unfolding partition_post_def by blast
    with step show ?thesis by blast
  next
    case False
    define wt1 where "wt1 = AList.update n (set (dependencies e)) wt0"
    from Cons.IH [OF reg d, of rq0 wt1] obtain rq wt
      where r: "partition_events evs order (rq0, wt1) = Inr (rq, wt)"
        and p: "partition_post evs order rq0 wt1 rq wt" by blast
    have step: "partition_events evs (n # order) (rq0, wt0) = Inr (rq, wt)"
      using e False r by (simp add: wt1_def)
    have 1: "snd ` set rq = snd ` set rq0 \<union> {m \<in> set (n # order). deps_of evs m = []}"
      using p False dn by (auto simp: partition_post_def)
    have 2: "distinct (map snd rq0) \<and> snd ` set rq0 \<inter> set (n # order) = {} \<longrightarrow> distinct (map snd rq)"
      using p by (simp add: partition_post_def)
    have 3: "map_of wt = (\<lambda>m. if m \<in> set (n # order) \<and> deps_of evs m \<noteq> []
                        then Some (set (deps_of evs m)) else map_of wt0 m)"
      using p False dn nn by (auto simp: partition_post_def fun_eq_iff wt1_def map_of_update)
    have 4: "distinct (map fst wt0) \<longrightarrow> distinct (map fst wt)"
      using p by (simp add: partition_post_def wt1_def distinct_update)
    from 1 2 3 4 have "partition_post evs (n # order) rq0 wt0 rq wt"
      unfolding partition_post_def by blast
    with step show ?thesis by blast
  qed
qed

definition initial_state :: "(int \<times> string) list \<Rightarrow> (string \<times> string set) list \<Rightarrow> sim_state" where
  "initial_state rq wt =
     \<lparr>sched = [], scheduled = {}, ready_queue = rq, waiting = wt, current_time = 0,
      active_resources = 0, active_events = []\<rparr>"

lemma initial_inv:
  assumes post: "partition_post evs order [] [] rq wt" and full: "set order = fst ` set evs"
  shows "sim_inv evs cap (initial_state rq wt)" and "head_now (initial_state rq wt)"
proof -
  let ?st = "initial_state rq wt"
  from post have R: "snd ` set rq = {n \<in> set order. deps_of evs n = []}"
    and dr: "distinct (map snd rq)"
    and dw: "distinct (map fst wt)"
    by (simp_all add: partition_post_def)
  from post have W: "map_of wt = (\<lambda>n. if n \<in> set order \<and> deps_of evs n \<noteq> []
                        then Some (set (deps_of evs n)) else None)"
    by (auto simp: partition_post_def fun_eq_iff)
  have Wd: "fst ` set wt = {n \<in> set order. deps_of evs n \<noteq> []}"
    unfolding fst_set_conv_dom W by (auto split: if_splits)
  have 1: "part_inv evs ?st"
    unfolding part_inv_def rq_names_def initial_state_def
    using dr dw R Wd full by auto
  have 2: "act_inv evs ?st"
    by (simp add: act_inv_def act_names_def initial_state_def)
  have 3: "wait_inv evs ?st"
    unfolding wait_inv_def rq_names_def initial_state_def
    using R W by (auto split: if_splits)
  have 4: "order_inv evs ?st" by (simp add: order_inv_def initial_state_def)
  have 5: "wf_nums evs cap \<longrightarrow> res_inv evs cap ?st"
    by (simp add: res_inv_def initial_state_def wf_nums_def load_def running_def)
  from 1 2 3 4 5 show "sim_inv evs cap ?st" unfolding sim_inv_def by blast
  show "head_now ?st" by (simp add: head_now_def initial_state_def)
qed

lemma topological_sort_schedule: "topological_sort (s\<lparr>schedule := x\<rparr>) = topological_sort s"
  by (simp add: topological_sort_def cong: sum.case_cong)

text \<open>Whenever the sort succeeds, the simulation returns normally, in a state that satisfies the invariant.\<close>

lemma schedule_events_total:
  assumes dist: "distinct (map fst (events s))" and ts: "topological_sort s = Inr order"
  shows "\<exists>st. schedule_events s = Some (s\<lparr>schedule := sched st\<rparr>, Inr (sched st))
     \<and> sim_inv (events s) (total_resources s) st"
proof -
  let ?evs = "events s"
  note so = topological_sort_Inr [OF dist ts]
  have acyc: "acyclic (dep_rel ?evs)" by (rule topological_sort_Inr_acyclic [OF dist ts])
  have reg: "\<forall>n\<in>set order. map_of ?evs n \<noteq> None"
    using so(3) by (simp add: map_of_None_iff)
  from partition_events_ok [OF reg so(2), of "[]" "[]"] obtain rq wt
    where pe: "partition_events ?evs order ([], []) = Inr (rq, wt)"
      and post: "partition_post ?evs order [] [] rq wt" by blast
  note init = initial_inv(1) [OF post so(3), where cap = "total_resources s"]
    initial_inv(2) [OF post so(3)]
  from sim_loop_total [OF dist so(1) acyc init] obtain st
    where l: "sim_loop ?evs (total_resources s) (initial_state rq wt) = Some (Inr st)"
      and i: "sim_inv ?evs (total_resources s) st" by blast
  have "schedule_events s = Some (s\<lparr>schedule := sched st\<rparr>, Inr (sched st))"
    unfolding schedule_events_def
    using ts pe l by (simp add: topological_sort_schedule Let_def initial_state_def)
  with i show ?thesis by blast
qed

lemma schedule_events_fail:
  assumes "topological_sort s = Inl e"
  shows "schedule_events s = Some (s\<lparr>schedule := []\<rparr>, Inl e)"
  using assms by (simp add: schedule_events_def topological_sort_schedule Let_def)

lemma schedule_events_Inr:
  assumes dist: "distinct (map fst (events s))" and r: "schedule_events s = Some (s', Inr sch)"
  shows "s' = s\<lparr>schedule := sch\<rparr>" and "\<exists>order. topological_sort s = Inr order"
    and "\<exists>st. sched st = sch \<and> sim_inv (events s) (total_resources s) st"
proof -
  show 1: "\<exists>order. topological_sort s = Inr order"
  proof (cases "topological_sort s")
    case (Inl e)
    from schedule_events_fail [OF this] r show ?thesis by simp
  next
    case (Inr order)
    then show ?thesis by blast
  qed
  then obtain order where "topological_sort s = Inr order" by blast
  from schedule_events_total [OF dist this] r
  show "s' = s\<lparr>schedule := sch\<rparr>" "\<exists>st. sched st = sch \<and> sim_inv (events s) (total_resources s) st"
    by auto
qed

section \<open>Example registries\<close>

definition spec_example :: EventScheduler where
  "spec_example =
     add_event (add_event (add_event (init 2)
       (new_event ''A'' 3 None 1 1 (- 1)))
       (new_event ''B'' 2 None 2 2 (- 1)))
       (new_event ''C'' 1 (Some [''A'']) 1 1 (- 1))"

definition deadlock_example :: EventScheduler where
  "deadlock_example =
     add_event (add_event (add_event (init 2)
       (new_event ''A'' 3 None 3 1 (- 1)))
       (new_event ''B'' 2 None 2 2 (- 1)))
       (new_event ''C'' 1 (Some [''A'']) 1 1 (- 1))"

definition cycle_example :: EventScheduler where
  "cycle_example =
     add_event (add_event (add_event (init 2)
       (new_event ''A'' 3 (Some [''B'']) 1 1 (- 1)))
       (new_event ''B'' 2 (Some [''A'']) 2 2 (- 1)))
       (new_event ''C'' 1 None 1 1 (- 1))"

definition cycle_unknown_example :: EventScheduler where
  "cycle_unknown_example =
     add_event (add_event (init 2)
       (new_event ''A'' 3 (Some [''B'']) 1 1 (- 1)))
       (new_event ''B'' 2 (Some [''A'', ''Z'']) 2 2 (- 1))"


definition negative_capacity_example :: EventScheduler where
  "negative_capacity_example =
     add_event (init (- 1)) (new_event ''X'' 1 None 1 1 (- 1))"

definition negative_duration_example :: EventScheduler where
  "negative_duration_example =
     add_event (add_event (add_event (init 2)
       (new_event ''P'' 8 None 2 1 (- 1)))
       (new_event ''Q'' (- 5) (Some [''P'']) 1 1 (- 1)))
       (new_event ''R'' 1 (Some [''Q'']) 2 1 (- 1))"

definition negative_resources_example :: EventScheduler where
  "negative_resources_example =
     add_event (add_event (init 2)
       (new_event ''A'' 1 None (- 1) 1 (- 1)))
       (new_event ''B'' 5 None 3 1 (- 1))"

section \<open>Properties of the scheduler\<close>

lemma spec_example_events:
  "events spec_example =
     [(''A'', \<lparr>name = ''A'', duration = 3, dependencies = [], resources_required = 1,
               priority = 1, deadline = - 1\<rparr>),
      (''B'', \<lparr>name = ''B'', duration = 2, dependencies = [], resources_required = 2,
               priority = 2, deadline = - 1\<rparr>),
      (''C'', \<lparr>name = ''C'', duration = 1, dependencies = [''A''], resources_required = 1,
               priority = 1, deadline = - 1\<rparr>)]"
  by (simp add: spec_example_def add_event_def init_def new_event_def)

lemma load_filter:
  "load evs sch t =
     (\<Sum>(n, start_time, end_time)\<leftarrow>filter (\<lambda>(n, start_time, end_time). start_time \<le> t \<and> t < end_time) sch.
        res_of evs n)"
  unfolding load_def by (induction sch) (simp_all add: split_beta)

lemma pkey_less:
  "pkey evs a < pkey evs b \<longleftrightarrow>
     prio_of evs a < prio_of evs b \<or> (prio_of evs a = prio_of evs b \<and> a < b)"
  by (auto simp: pkey_def less_prod_def)

text \<open>
  C1 (as the code behaves). Whenever \<^verbatim>\<open>schedule_events\<close> returns a schedule (complete,
  or partial after the deadlock break) for a registry with distinct keys in which the
  capacity, every duration and every resource requirement are not negative, at every
  integer time \<open>t\<close> the resource requirements of the scheduled tasks with
  \<open>start \<le> t < end\<close> add up to at most \<^verbatim>\<open>total_resources\<close>.
\<close>

theorem resource_capacity_respected:
  assumes "distinct (map fst (events s))"
    and "0 \<le> total_resources s"
    and "\<forall>(n, e)\<in>set (events s). 0 \<le> duration e \<and> 0 \<le> resources_required e"
    and "schedule_events s = Some (s', Inr sch)"
  shows "(\<Sum>(n, start_time, end_time)\<leftarrow>filter (\<lambda>(n, start_time, end_time). start_time \<le> t \<and> t < end_time) sch.
            res_of (events s) n) \<le> total_resources s"
proof -
  from schedule_events_Inr(3) [OF assms(1) assms(4)] obtain st
    where st: "sched st = sch" and inv: "sim_inv (events s) (total_resources s) st" by blast
  from assms(2) assms(3) have "wf_nums (events s) (total_resources s)"
    by (simp add: wf_nums_def)
  with inv have "res_inv (events s) (total_resources s) st" by (simp add: sim_inv_def)
  then have "load (events s) sch t \<le> total_resources s" by (simp add: res_inv_def st)
  then show ?thesis by (simp add: load_filter)
qed

theorem resource_capacity_respected_witness:
  "distinct (map fst (events spec_example)) \<and> 0 \<le> total_resources spec_example
   \<and> schedule_events spec_example =
       Some (spec_example\<lparr>schedule := [(''A'', 0, 3), (''C'', 3, 4), (''B'', 4, 6)]\<rparr>,
             Inr [(''A'', 0, 3), (''C'', 3, 4), (''B'', 4, 6)])
   \<and> (\<Sum>(n, start_time, end_time)\<leftarrow>filter (\<lambda>(n, start_time, end_time). start_time \<le> 4 \<and> 4 < end_time)
          [(''A'', 0, 3), (''C'', 3, 4), (''B'', 4, 6 :: int)].
            res_of (events spec_example) n) \<le> total_resources spec_example"
proof -
  have h1: "distinct (map fst (events spec_example))"
    by (simp add: spec_example_events)
  have h2: "0 \<le> total_resources spec_example"
    by (simp add: spec_example_def add_event_def init_def)
  have h3: "\<forall>(n, e)\<in>set (events spec_example). 0 \<le> duration e \<and> 0 \<le> resources_required e"
    by (simp add: spec_example_events)
  have h4: "schedule_events spec_example =
       Some (spec_example\<lparr>schedule := [(''A'', 0, 3), (''C'', 3, 4), (''B'', 4, 6)]\<rparr>,
             Inr [(''A'', 0, 3), (''C'', 3, 4), (''B'', 4, 6)])"
    by code_simp
  from resource_capacity_respected [OF h1 h2 h3 h4, of 4] h1 h2 h4 show ?thesis by simp
qed

text \<open>
  C1, without the sign conditions.  Nothing in the scheduler checks signs, and the bound
  fails on schedules it returns: with capacity \<open>-1\<close> nothing is admitted and the empty sum
  \<open>0\<close> exceeds the capacity; with a negative duration (Q) the clock runs backwards, so R is
  started at time 3 while P, retired earlier at time 8, still occupies the pool of 2; with
  a negative requirement (A) the admission test lets B (3 workers) into a pool of 2.
\<close>

theorem resource_capacity_counterexample:
  "schedule_events negative_capacity_example
     = Some (negative_capacity_example\<lparr>schedule := []\<rparr>, Inr [])
   \<and> (\<Sum>(n, start_time, end_time)\<leftarrow>filter (\<lambda>(n, start_time, end_time). start_time \<le> 0 \<and> 0 < end_time)
          ([] :: (string \<times> int \<times> int) list).
            res_of (events negative_capacity_example) n) = 0
   \<and> total_resources negative_capacity_example = - 1
   \<and> schedule_events negative_duration_example
     = Some (negative_duration_example\<lparr>schedule := [(''P'', 0, 8), (''Q'', 8, 3), (''R'', 3, 4)]\<rparr>,
             Inr [(''P'', 0, 8), (''Q'', 8, 3), (''R'', 3, 4)])
   \<and> (\<Sum>(n, start_time, end_time)\<leftarrow>filter (\<lambda>(n, start_time, end_time). start_time \<le> 3 \<and> 3 < end_time)
          ([(''P'', 0, 8), (''Q'', 8, 3), (''R'', 3, 4)] :: (string \<times> int \<times> int) list).
            res_of (events negative_duration_example) n) = 4
   \<and> total_resources negative_duration_example = 2
   \<and> schedule_events negative_resources_example
     = Some (negative_resources_example\<lparr>schedule := [(''A'', 0, 1), (''B'', 0, 5)]\<rparr>,
             Inr [(''A'', 0, 1), (''B'', 0, 5)])
   \<and> (\<Sum>(n, start_time, end_time)\<leftarrow>filter (\<lambda>(n, start_time, end_time). start_time \<le> 2 \<and> 2 < end_time)
          ([(''A'', 0, 1), (''B'', 0, 5)] :: (string \<times> int \<times> int) list).
            res_of (events negative_resources_example) n) = 3
   \<and> total_resources negative_resources_example = 2"
proof -
  have 1: "schedule_events negative_capacity_example
     = Some (negative_capacity_example\<lparr>schedule := []\<rparr>, Inr [])"
    by code_simp
  have 2: "total_resources negative_capacity_example = - 1"
    by (simp add: negative_capacity_example_def add_event_def init_def)
  have 3: "schedule_events negative_duration_example
     = Some (negative_duration_example\<lparr>schedule := [(''P'', 0, 8), (''Q'', 8, 3), (''R'', 3, 4)]\<rparr>,
             Inr [(''P'', 0, 8), (''Q'', 8, 3), (''R'', 3, 4)])"
    by code_simp
  have 4: "load (events negative_duration_example) [(''P'', 0, 8), (''Q'', 8, 3), (''R'', 3, 4)] 3 = 4"
    by code_simp
  have 5: "total_resources negative_duration_example = 2"
    by (simp add: negative_duration_example_def add_event_def init_def)
  have 6: "schedule_events negative_resources_example
     = Some (negative_resources_example\<lparr>schedule := [(''A'', 0, 1), (''B'', 0, 5)]\<rparr>,
             Inr [(''A'', 0, 1), (''B'', 0, 5)])"
    by code_simp
  have 7: "load (events negative_resources_example) [(''A'', 0, 1), (''B'', 0, 5)] 2 = 3"
    by code_simp
  have 8: "total_resources negative_resources_example = 2"
    by (simp add: negative_resources_example_def add_event_def init_def)
  from 4 7 have "(\<Sum>(n, start_time, end_time)\<leftarrow>filter (\<lambda>(n, start_time, end_time). start_time \<le> 3 \<and> 3 < end_time)
          ([(''P'', 0, 8), (''Q'', 8, 3), (''R'', 3, 4)] :: (string \<times> int \<times> int) list).
            res_of (events negative_duration_example) n) = 4"
    and "(\<Sum>(n, start_time, end_time)\<leftarrow>filter (\<lambda>(n, start_time, end_time). start_time \<le> 2 \<and> 2 < end_time)
          ([(''A'', 0, 1), (''B'', 0, 5)] :: (string \<times> int \<times> int) list).
            res_of (events negative_resources_example) n) = 3"
    unfolding load_filter by simp_all
  with 1 2 3 5 6 8 show ?thesis by simp
qed

text \<open>
  C2. Whenever \<^verbatim>\<open>schedule_events\<close> returns a schedule, for all tasks \<open>A\<close> and \<open>B\<close> with \<open>A\<close>
  among the dependencies of \<open>B\<close>: if both have an interval in the returned schedule, then
  \<open>A\<close> ends no later than \<open>B\<close> starts.
\<close>

theorem dependencies_finish_first:
  assumes "distinct (map fst (events s))"
    and "schedule_events s = Some (s', Inr sch)"
    and "(B, eB) \<in> set (events s)" and "A \<in> set (dependencies eB)"
    and "(A, startA, endA) \<in> set sch" and "(B, startB, endB) \<in> set sch"
  shows "endA \<le> startB"
proof -
  from schedule_events_Inr(3) [OF assms(1) assms(2)] obtain st
    where st: "sched st = sch" and inv: "sim_inv (events s) (total_resources s) st" by blast
  from inv have d: "distinct (map fst sch)" and o: "order_inv (events s) st"
    by (simp_all add: sim_inv_def part_inv_def st)
  from d assms(5) assms(6) have a: "map_of sch A = Some (startA, endA)"
    and b: "map_of sch B = Some (startB, endB)" by simp_all
  have "A \<in> set (deps_of (events s) B)"
    using assms(1) assms(3) assms(4) by (simp add: deps_of_mem)
  with o b obtain sd ed where "map_of sch A = Some (sd, ed)" "ed \<le> startB"
    unfolding order_inv_def st by blast
  with a show ?thesis by simp
qed

theorem dependencies_finish_first_witness:
  "distinct (map fst (events spec_example))
   \<and> schedule_events spec_example =
       Some (spec_example\<lparr>schedule := [(''A'', 0, 3), (''C'', 3, 4), (''B'', 4, 6)]\<rparr>,
             Inr [(''A'', 0, 3), (''C'', 3, 4), (''B'', 4, 6)])
   \<and> (''C'', new_event ''C'' 1 (Some [''A'']) 1 1 (- 1)) \<in> set (events spec_example)
   \<and> ''A'' \<in> set (dependencies (new_event ''C'' 1 (Some [''A'']) 1 1 (- 1)))
   \<and> (''A'', 0, 3) \<in> set [(''A'', 0, 3), (''C'', 3, 4), (''B'', 4, 6 :: int)]
   \<and> (''C'', 3, 4) \<in> set [(''A'', 0, 3), (''C'', 3, 4), (''B'', 4, 6 :: int)]
   \<and> (3 :: int) \<le> 3"
proof -
  have h1: "distinct (map fst (events spec_example))"
    by (simp add: spec_example_events)
  have h2: "schedule_events spec_example =
       Some (spec_example\<lparr>schedule := [(''A'', 0, 3), (''C'', 3, 4), (''B'', 4, 6)]\<rparr>,
             Inr [(''A'', 0, 3), (''C'', 3, 4), (''B'', 4, 6)])"
    by code_simp
  have h3: "(''C'', new_event ''C'' 1 (Some [''A'']) 1 1 (- 1)) \<in> set (events spec_example)"
    by (simp add: spec_example_events new_event_def)
  have h4: "''A'' \<in> set (dependencies (new_event ''C'' 1 (Some [''A'']) 1 1 (- 1)))"
    by (simp add: new_event_def)
  have h5: "(''A'', 0, 3) \<in> set [(''A'', 0, 3), (''C'', 3, 4), (''B'', 4, 6 :: int)]" by simp
  have h6: "(''C'', 3, 4) \<in> set [(''A'', 0, 3), (''C'', 3, 4), (''B'', 4, 6 :: int)]" by simp
  from dependencies_finish_first [OF h1 h2 h3 h4 h5 h6] h1 h2 h3 h4 h5 h6
  show ?thesis by simp
qed

text \<open>
  C3. When the registry is a dictionary, every dependency name is registered and the
  dependency relation is acyclic, \<^verbatim>\<open>topological_sort\<close> returns an order that contains every
  task name exactly once, in which all dependencies of a task stand before the task, and
  which is the concatenation of the batches of the level-wise traversal: batch \<open>k\<close> holds
  exactly the tasks not in an earlier batch whose dependencies all are, and inside a batch
  the names ascend by priority, with equal priorities by name.
\<close>

theorem topological_sort_correct:
  assumes "distinct (map fst (events s))"
    and "\<forall>(n, e)\<in>set (events s). \<forall>d\<in>set (dependencies e). d \<in> fst ` set (events s)"
    and "acyclic {(d, n). \<exists>e. (n, e) \<in> set (events s) \<and> d \<in> set (dependencies e)}"
  shows "\<exists>order batches. topological_sort s = Inr order
     \<and> distinct order \<and> set order = fst ` set (events s)
     \<and> (\<forall>(n, e)\<in>set (events s). \<exists>pre post. order = pre @ n # post \<and> set (dependencies e) \<subseteq> set pre)
     \<and> order = concat batches
     \<and> (\<forall>k<length batches.
           set (batches ! k) =
             {n \<in> fst ` set (events s). n \<notin> set (concat (take k batches))
                \<and> set (deps_of (events s) n) \<subseteq> set (concat (take k batches))}
           \<and> sorted_wrt (\<lambda>a b. prio_of (events s) a < prio_of (events s) b
                 \<or> (prio_of (events s) a = prio_of (events s) b \<and> a < b)) (batches ! k))"
proof -
  let ?evs = "events s"
  from assms(2) have res: "resolved ?evs" by (simp add: resolved_iff)
  from assms(3) have acyc: "acyclic (dep_rel ?evs)" by (simp add: dep_rel_def)
  from topological_sort_acyclic [OF assms(1) res acyc] obtain bs
    where bs: "batches_ok ?evs bs" and ts: "topological_sort s = Inr (concat bs)" by blast
  note so = topological_sort_Inr [OF assms(1) ts]
  have pre: "\<forall>(n, e)\<in>set ?evs. \<exists>pre post. concat bs = pre @ n # post \<and> set (dependencies e) \<subseteq> set pre"
  proof (intro ballI, clarify)
    fix n e assume ne: "(n, e) \<in> set ?evs"
    then have "n \<in> set (concat bs)" using so(3) by force
    from batches_prefix [OF bs this] deps_of_mem [OF assms(1) ne]
    show "\<exists>pre post. concat bs = pre @ n # post \<and> set (dependencies e) \<subseteq> set pre" by simp
  qed
  have bat: "\<forall>k<length bs.
           set (bs ! k) =
             {n \<in> fst ` set ?evs. n \<notin> set (concat (take k bs))
                \<and> set (deps_of ?evs n) \<subseteq> set (concat (take k bs))}
           \<and> sorted_wrt (\<lambda>a b. prio_of ?evs a < prio_of ?evs b
                 \<or> (prio_of ?evs a = prio_of ?evs b \<and> a < b)) (bs ! k)"
  proof (intro allI impI)
    fix k assume "k < length bs"
    with bs have 1: "sorted_wrt (\<lambda>a b. pkey ?evs a < pkey ?evs b) (bs ! k)"
      and 2: "set (bs ! k) = ready_set ?evs (set (concat (take k bs)))"
      unfolding batches_ok_def by simp_all
    from 1 have "sorted_wrt (\<lambda>a b. prio_of ?evs a < prio_of ?evs b
                 \<or> (prio_of ?evs a = prio_of ?evs b \<and> a < b)) (bs ! k)"
      unfolding pkey_less .
    with 2 show "set (bs ! k) =
             {n \<in> fst ` set ?evs. n \<notin> set (concat (take k bs))
                \<and> set (deps_of ?evs n) \<subseteq> set (concat (take k bs))}
           \<and> sorted_wrt (\<lambda>a b. prio_of ?evs a < prio_of ?evs b
                 \<or> (prio_of ?evs a = prio_of ?evs b \<and> a < b)) (bs ! k)"
      unfolding ready_set_def by simp
  qed
  have main: "topological_sort s = Inr (concat bs)
     \<and> distinct (concat bs) \<and> set (concat bs) = fst ` set ?evs
     \<and> (\<forall>(n, e)\<in>set ?evs. \<exists>pre post. concat bs = pre @ n # post \<and> set (dependencies e) \<subseteq> set pre)
     \<and> concat bs = concat bs
     \<and> (\<forall>k<length bs.
           set (bs ! k) =
             {n \<in> fst ` set ?evs. n \<notin> set (concat (take k bs))
                \<and> set (deps_of ?evs n) \<subseteq> set (concat (take k bs))}
           \<and> sorted_wrt (\<lambda>a b. prio_of ?evs a < prio_of ?evs b
                 \<or> (prio_of ?evs a = prio_of ?evs b \<and> a < b)) (bs ! k))"
    using ts so(2) so(3) pre bat by (intro conjI refl)
  show ?thesis
    by (rule exI [of _ "concat bs"], rule exI [of _ bs]) (rule main)
qed

theorem topological_sort_correct_witness:
  "distinct (map fst (events spec_example))
   \<and> acyclic {(d, n). \<exists>e. (n, e) \<in> set (events spec_example) \<and> d \<in> set (dependencies e)}
   \<and> topological_sort spec_example = Inr [''A'', ''B'', ''C'']"
proof -
  have h1: "distinct (map fst (events spec_example))"
    by (simp add: spec_example_events)
  have h2: "\<forall>(n, e)\<in>set (events spec_example). \<forall>d\<in>set (dependencies e).
      d \<in> fst ` set (events spec_example)"
    by (simp add: spec_example_events)
  have h3: "acyclic {(d, n). \<exists>e. (n, e) \<in> set (events spec_example) \<and> d \<in> set (dependencies e)}"
  proof (rule acyclicI_order [where f = "\<lambda>n. if n = ''A'' then 1 :: nat else 0"])
    fix a b
    assume "(a, b) \<in> {(d, n). \<exists>e. (n, e) \<in> set (events spec_example) \<and> d \<in> set (dependencies e)}"
    then obtain e where e: "(b, e) \<in> set (events spec_example)" and a: "a \<in> set (dependencies e)"
      by blast
    from e a have "a = ''A'' \<and> b = ''C''"
      unfolding spec_example_events by auto
    then show "(if b = ''A'' then 1 :: nat else 0) < (if a = ''A'' then 1 else 0)"
      by simp
  qed
  have "\<exists>order. topological_sort spec_example = Inr order"
    using topological_sort_correct [OF h1 h2 h3] by (elim exE conjE) (rule exI)
  then obtain order where o: "topological_sort spec_example = Inr order" ..
  have ts: "topological_sort spec_example = Inr [''A'', ''B'', ''C'']" by code_simp
  with o have "order = [''A'', ''B'', ''C'']" by simp
  with o have "topological_sort spec_example = Inr [''A'', ''B'', ''C'']" by simp
  with h1 h3 show ?thesis by (intro conjI)
qed

text \<open>
  C4 (as the code behaves). With capacity 2 and exactly the tasks A (duration 3, one
  worker, priority 1), B (duration 2, two workers, priority 2) and C (duration 1, one
  worker, priority 1, after A), \<^verbatim>\<open>schedule_events\<close> gives A the interval \<open>(0, 3)\<close>, C the
  interval \<open>(3, 4)\<close> and B the interval \<open>(4, 6)\<close>: at time 3 the ready heap holds C before
  B, C is admitted, and B (two workers) no longer fits until C retires at time 4.
\<close>

theorem spec_example_schedule:
  "schedule_events spec_example =
     Some (spec_example\<lparr>schedule := [(''A'', 0, 3), (''C'', 3, 4), (''B'', 4, 6)]\<rparr>,
           Inr [(''A'', 0, 3), (''C'', 3, 4), (''B'', 4, 6)])"
  by code_simp

text \<open>
  The interval \<open>(3, 5)\<close> for B, which would overlap C on a pool of two workers, is not
  what the run produces.
\<close>

theorem spec_example_schedule_counterexample:
  "map_option snd (schedule_events spec_example)
     = Some (Inr [(''A'', 0, 3), (''C'', 3, 4), (''B'', 4, 6)])
   \<and> map_of [(''A'', 0, 3), (''C'', 3, 4), (''B'', 4, 6 :: int)] ''B'' = Some (4 :: int, 6)
   \<and> map_of [(''A'', 0, 3), (''C'', 3, 4), (''B'', 4, 6 :: int)] ''B'' \<noteq> Some (3 :: int, 5)"
proof -
  have "map_option snd (schedule_events spec_example)
     = Some (Inr [(''A'', 0, 3), (''C'', 3, 4), (''B'', 4, 6)])"
    by code_simp
  then show ?thesis by simp
qed

text \<open>
  C5 (as the code behaves). In a registry that holds tasks \<open>A\<close> and \<open>B\<close>, each depending
  on the other, \<^verbatim>\<open>topological_sort\<close> always raises, \<^verbatim>\<open>schedule_events\<close> raises the same error
  and leaves the stored schedule empty, so no order containing \<open>A\<close> or \<open>B\<close> is ever returned;
  the error is the cycle error whenever every dependency name is registered.
\<close>

theorem mutual_dependency_rejected:
  assumes "distinct (map fst (events s))"
    and "(A, eA) \<in> set (events s)" and "(B, eB) \<in> set (events s)"
    and "B \<in> set (dependencies eA)" and "A \<in> set (dependencies eB)"
  shows "\<exists>err. topological_sort s = Inl err
     \<and> schedule_events s = Some (s\<lparr>schedule := []\<rparr>, Inl err)
     \<and> ((\<forall>(n, e)\<in>set (events s). \<forall>d\<in>set (dependencies e). d \<in> fst ` set (events s))
          \<longrightarrow> err = ValueError cycle_msg)"
proof -
  have no: "\<And>order. topological_sort s \<noteq> Inr order"
  proof
    fix order assume "topological_sort s = Inr order"
    from topological_sort_Inr_acyclic [OF assms(1) this]
    have acyc: "acyclic (dep_rel (events s))" .
    from assms(2) assms(4) have "(B, A) \<in> dep_rel (events s)" by (auto simp: dep_rel_def)
    moreover from assms(3) assms(5) have "(A, B) \<in> dep_rel (events s)"
      by (auto simp: dep_rel_def)
    ultimately have "(A, A) \<in> (dep_rel (events s))\<^sup>+" by (meson trancl.simps)
    with acyc show False by (simp add: acyclic_def)
  qed
  then obtain err where err: "topological_sort s = Inl err"
    by (cases "topological_sort s") auto
  have "(\<forall>(n, e)\<in>set (events s). \<forall>d\<in>set (dependencies e). d \<in> fst ` set (events s))
          \<longrightarrow> err = ValueError cycle_msg"
  proof
    assume "\<forall>(n, e)\<in>set (events s). \<forall>d\<in>set (dependencies e). d \<in> fst ` set (events s)"
    then have "resolved (events s)" by (simp add: resolved_iff)
    from topological_sort_resolved [OF assms(1) this] obtain bs
      where "topological_sort s =
         (if length (concat bs) \<noteq> length (events s) then Inl (ValueError cycle_msg)
          else Inr (concat bs))" by blast
    with err no show "err = ValueError cycle_msg" by (auto split: if_splits)
  qed
  with err schedule_events_fail [OF err] show ?thesis by blast
qed

theorem mutual_dependency_rejected_witness:
  "distinct (map fst (events cycle_example))
   \<and> (''A'', new_event ''A'' 3 (Some [''B'']) 1 1 (- 1)) \<in> set (events cycle_example)
   \<and> (''B'', new_event ''B'' 2 (Some [''A'']) 2 2 (- 1)) \<in> set (events cycle_example)
   \<and> ''B'' \<in> set (dependencies (new_event ''A'' 3 (Some [''B'']) 1 1 (- 1)))
   \<and> ''A'' \<in> set (dependencies (new_event ''B'' 2 (Some [''A'']) 2 2 (- 1)))
   \<and> topological_sort cycle_example = Inl (ValueError cycle_msg)
   \<and> schedule_events cycle_example
       = Some (cycle_example\<lparr>schedule := []\<rparr>, Inl (ValueError cycle_msg))"
proof -
  have ev: "events cycle_example =
     [(''A'', new_event ''A'' 3 (Some [''B'']) 1 1 (- 1)),
      (''B'', new_event ''B'' 2 (Some [''A'']) 2 2 (- 1)),
      (''C'', new_event ''C'' 1 None 1 1 (- 1))]"
    by (simp add: cycle_example_def add_event_def init_def new_event_def)
  have h1: "distinct (map fst (events cycle_example))" by (simp add: ev)
  have h2: "(''A'', new_event ''A'' 3 (Some [''B'']) 1 1 (- 1)) \<in> set (events cycle_example)"
    by (simp add: ev)
  have h3: "(''B'', new_event ''B'' 2 (Some [''A'']) 2 2 (- 1)) \<in> set (events cycle_example)"
    by (simp add: ev)
  have h4: "''B'' \<in> set (dependencies (new_event ''A'' 3 (Some [''B'']) 1 1 (- 1)))"
    by (simp add: new_event_def)
  have h5: "''A'' \<in> set (dependencies (new_event ''B'' 2 (Some [''A'']) 2 2 (- 1)))"
    by (simp add: new_event_def)
  have res: "\<forall>(n, e)\<in>set (events cycle_example). \<forall>d\<in>set (dependencies e).
      d \<in> fst ` set (events cycle_example)"
    by (simp add: ev new_event_def)
  from mutual_dependency_rejected [OF h1 h2 h3 h4 h5] obtain err
    where 1: "topological_sort cycle_example = Inl err"
      and 2: "schedule_events cycle_example = Some (cycle_example\<lparr>schedule := []\<rparr>, Inl err)"
      and 3: "(\<forall>(n, e)\<in>set (events cycle_example). \<forall>d\<in>set (dependencies e).
                d \<in> fst ` set (events cycle_example)) \<longrightarrow> err = ValueError cycle_msg"
    by (elim exE conjE)
  from 3 res have "err = ValueError cycle_msg" by (rule mp)
  with 1 2 h1 h2 h3 h4 h5 show ?thesis by (intro conjI) simp_all
qed

text \<open>
  A registry that holds the two-task cycle and also a dependency on a name that is not
  registered: the graph construction raises the unknown-dependency error before the cycle
  is looked for, so the claim that the cycle error is raised for every such registry fails.
\<close>

theorem mutual_dependency_counterexample:
  "(''A'', new_event ''A'' 3 (Some [''B'']) 1 1 (- 1)) \<in> set (events cycle_unknown_example)
   \<and> (''B'', new_event ''B'' 2 (Some [''A'', ''Z'']) 2 2 (- 1)) \<in> set (events cycle_unknown_example)
   \<and> topological_sort cycle_unknown_example = Inl (ValueError (unknown_msg ''B'' ''Z''))
   \<and> topological_sort cycle_unknown_example \<noteq> Inl (ValueError cycle_msg)"
proof -
  have ev: "events cycle_unknown_example =
     [(''A'', new_event ''A'' 3 (Some [''B'']) 1 1 (- 1)),
      (''B'', new_event ''B'' 2 (Some [''A'', ''Z'']) 2 2 (- 1))]"
    by (simp add: cycle_unknown_example_def add_event_def init_def new_event_def)
  have 1: "topological_sort cycle_unknown_example = Inl (ValueError (unknown_msg ''B'' ''Z''))"
    by code_simp
  have 2: "unknown_msg ''B'' ''Z'' \<noteq> cycle_msg" by code_simp
  from 1 2 show ?thesis by (simp add: ev)
qed

text \<open>
  C6. When some registered task declares a dependency on a name that is not registered,
  \<^verbatim>\<open>topological_sort\<close> raises the \<^verbatim>\<open>ValueError\<close> whose message is
  \<^verbatim>\<open>Event '<task>' depends on unknown event '<name>'\<close>, spelled with the name of a
  registered task and with a dependency of that task which is not registered;
  \<^verbatim>\<open>schedule_events\<close> raises the same error, returns no schedule and leaves the stored
  schedule empty.
\<close>

theorem unknown_dependency_rejected:
  assumes "(n0, e0) \<in> set (events s)" and "d0 \<in> set (dependencies e0)"
    and "d0 \<notin> fst ` set (events s)"
  shows "\<exists>n e d. (n, e) \<in> set (events s) \<and> d \<in> set (dependencies e) \<and> d \<notin> fst ` set (events s)
     \<and> topological_sort s
          = Inl (ValueError (''Event '' @ [CHR 0x27] @ n @ [CHR 0x27]
                   @ '' depends on unknown event '' @ [CHR 0x27] @ d @ [CHR 0x27]))
     \<and> schedule_events s
          = Some (s\<lparr>schedule := []\<rparr>,
                  Inl (ValueError (''Event '' @ [CHR 0x27] @ n @ [CHR 0x27]
                   @ '' depends on unknown event '' @ [CHR 0x27] @ d @ [CHR 0x27])))"
proof -
  from assms have "\<not> resolved (events s)" unfolding resolved_iff by blast
  from topological_sort_unresolved [OF this] obtain n e d
    where "(n, e) \<in> set (events s)" "d \<in> set (dependencies e)" "map_of (events s) d = None"
      and ts: "topological_sort s = Inl (ValueError (unknown_msg n d))"
    by blast
  moreover from this have "d \<notin> fst ` set (events s)" by (simp add: map_of_None_iff)
  moreover note schedule_events_fail [OF ts]
  ultimately show ?thesis unfolding unknown_msg_def by blast
qed

theorem unknown_dependency_rejected_witness:
  "(''B'', new_event ''B'' 2 (Some [''A'', ''Z'']) 2 2 (- 1)) \<in> set (events cycle_unknown_example)
   \<and> ''Z'' \<in> set (dependencies (new_event ''B'' 2 (Some [''A'', ''Z'']) 2 2 (- 1)))
   \<and> ''Z'' \<notin> fst ` set (events cycle_unknown_example)
   \<and> topological_sort cycle_unknown_example
       = Inl (ValueError (''Event '' @ [CHR 0x27] @ ''B'' @ [CHR 0x27]
                @ '' depends on unknown event '' @ [CHR 0x27] @ ''Z'' @ [CHR 0x27]))"
proof -
  have ev: "events cycle_unknown_example =
     [(''A'', new_event ''A'' 3 (Some [''B'']) 1 1 (- 1)),
      (''B'', new_event ''B'' 2 (Some [''A'', ''Z'']) 2 2 (- 1))]"
    by (simp add: cycle_unknown_example_def add_event_def init_def new_event_def)
  have h1: "(''B'', new_event ''B'' 2 (Some [''A'', ''Z'']) 2 2 (- 1)) \<in> set (events cycle_unknown_example)"
    by (simp add: ev)
  have h2: "''Z'' \<in> set (dependencies (new_event ''B'' 2 (Some [''A'', ''Z'']) 2 2 (- 1)))"
    by (simp add: new_event_def)
  have h3: "''Z'' \<notin> fst ` set (events cycle_unknown_example)" by (simp add: ev)
  from unknown_dependency_rejected [OF h1 h2 h3] obtain n e d
    where ts: "topological_sort cycle_unknown_example
          = Inl (ValueError (''Event '' @ [CHR 0x27] @ n @ [CHR 0x27]
                   @ '' depends on unknown event '' @ [CHR 0x27] @ d @ [CHR 0x27]))"
    by (elim exE conjE)
  have c: "topological_sort cycle_unknown_example
       = Inl (ValueError (''Event '' @ [CHR 0x27] @ ''B'' @ [CHR 0x27]
                @ '' depends on unknown event '' @ [CHR 0x27] @ ''Z'' @ [CHR 0x27]))"
    by code_simp
  with ts have "''Event '' @ [CHR 0x27] @ n @ [CHR 0x27]
                   @ '' depends on unknown event '' @ [CHR 0x27] @ d @ [CHR 0x27]
       = ''Event '' @ [CHR 0x27] @ ''B'' @ [CHR 0x27]
                @ '' depends on unknown event '' @ [CHR 0x27] @ ''Z'' @ [CHR 0x27]"
    by simp
  with ts have "topological_sort cycle_unknown_example
       = Inl (ValueError (''Event '' @ [CHR 0x27] @ ''B'' @ [CHR 0x27]
                @ '' depends on unknown event '' @ [CHR 0x27] @ ''Z'' @ [CHR 0x27]))"
    by simp
  with h1 h2 h3 show ?thesis by (intro conjI)
qed

text \<open>
  C7. When the sort raises (cycle or unknown dependency), \<^verbatim>\<open>schedule_events\<close> raises that
  error and publishes nothing: the stored schedule was cleared before the sort and stays
  empty, whatever it held before the call; the registry and the capacity are untouched.
\<close>

theorem failed_schedule_is_cleared:
  assumes "topological_sort s = Inl err"
  shows "\<exists>s'. schedule_events s = Some (s', Inl err) \<and> schedule s' = []
     \<and> events s' = events s \<and> total_resources s' = total_resources s"
  using schedule_events_fail [OF assms] by simp

theorem failed_schedule_is_cleared_witness:
  "topological_sort (cycle_example\<lparr>schedule := [(''C'', 0, 1)]\<rparr>) = Inl (ValueError cycle_msg)
   \<and> schedule_events (cycle_example\<lparr>schedule := [(''C'', 0, 1)]\<rparr>)
       = Some (cycle_example\<lparr>schedule := []\<rparr>, Inl (ValueError cycle_msg))"
proof -
  have h: "topological_sort (cycle_example\<lparr>schedule := [(''C'', 0, 1)]\<rparr>) = Inl (ValueError cycle_msg)"
    by code_simp
  from failed_schedule_is_cleared [OF h] obtain s'
    where 1: "schedule_events (cycle_example\<lparr>schedule := [(''C'', 0, 1)]\<rparr>)
        = Some (s', Inl (ValueError cycle_msg))"
    by (elim exE conjE)
  have "schedule_events (cycle_example\<lparr>schedule := [(''C'', 0, 1)]\<rparr>)
       = Some (cycle_example\<lparr>schedule := []\<rparr>, Inl (ValueError cycle_msg))"
    by code_simp
  with 1 have "s' = cycle_example\<lparr>schedule := []\<rparr>" by simp
  with 1 h show ?thesis by simp
qed

text \<open>
  C8. Whenever the topological sort succeeds, \<^verbatim>\<open>schedule_events\<close> terminates and returns
  a schedule: the loop ends either with all three collections empty or by the deadlock
  break, and in both cases what is stored and returned is the schedule built so far, a
  dictionary over registered names that may lack some of them.
\<close>

theorem schedule_events_terminates:
  assumes "distinct (map fst (events s))" and "topological_sort s = Inr order"
  shows "\<exists>sch. schedule_events s = Some (s\<lparr>schedule := sch\<rparr>, Inr sch)
     \<and> distinct (map fst sch) \<and> fst ` set sch \<subseteq> fst ` set (events s)"
proof -
  from schedule_events_total [OF assms] obtain st
    where r: "schedule_events s = Some (s\<lparr>schedule := sched st\<rparr>, Inr (sched st))"
      and inv: "sim_inv (events s) (total_resources s) st" by blast
  from inv have "part_inv (events s) st" by (simp add: sim_inv_def)
  then have "distinct (map fst (sched st))" "fst ` set (sched st) \<subseteq> fst ` set (events s)"
    by (auto simp: part_inv_def)
  with r show ?thesis by blast
qed

theorem schedule_events_terminates_witness:
  "distinct (map fst (events deadlock_example))
   \<and> topological_sort deadlock_example = Inr [''A'', ''B'', ''C'']
   \<and> schedule_events deadlock_example
       = Some (deadlock_example\<lparr>schedule := [(''B'', 0, 2)]\<rparr>, Inr [(''B'', 0, 2)])"
proof -
  have ev: "events deadlock_example =
     [(''A'', new_event ''A'' 3 None 3 1 (- 1)),
      (''B'', new_event ''B'' 2 None 2 2 (- 1)),
      (''C'', new_event ''C'' 1 (Some [''A'']) 1 1 (- 1))]"
    by (simp add: deadlock_example_def add_event_def init_def new_event_def)
  have h1: "distinct (map fst (events deadlock_example))" by (simp add: ev)
  have h2: "topological_sort deadlock_example = Inr [''A'', ''B'', ''C'']" by code_simp
  from schedule_events_terminates [OF h1 h2] obtain sch
    where 1: "schedule_events deadlock_example = Some (deadlock_example\<lparr>schedule := sch\<rparr>, Inr sch)"
    by (elim exE conjE)
  have "schedule_events deadlock_example
       = Some (deadlock_example\<lparr>schedule := [(''B'', 0, 2)]\<rparr>, Inr [(''B'', 0, 2)])"
    by code_simp
  with 1 have "sch = [(''B'', 0, 2)]" by simp
  with 1 h1 h2 show ?thesis by simp
qed

section \<open>Deadline analysis: properties\<close>

lemma check_deadlines_loop_total:
  "fst ` set sch \<subseteq> fst ` set evs \<Longrightarrow> \<exists>missed. check_deadlines_loop evs sch acc = Inr missed"
proof (induction sch arbitrary: acc)
  case Nil
  then show ?case by simp
next
  case (Cons x sch)
  obtain n st e where x: "x = (n, st, e)" by (cases x)
  from Cons.prems x have "n \<in> fst ` set evs" by simp
  then obtain ev where "map_of evs n = Some ev"
    by (metis domD dom_map_of_conv_image_fst)
  moreover from Cons.prems have "fst ` set sch \<subseteq> fst ` set evs" by simp
  ultimately show ?case using Cons.IH x by simp
qed

lemma check_deadlines_loop_set:
  "check_deadlines_loop evs sch acc = Inr missed \<Longrightarrow>
   set missed = set acc \<union>
     {(n, d, e). \<exists>st ev. (n, st, e) \<in> set sch \<and> map_of evs n = Some ev \<and> deadline ev = d
        \<and> 0 < d \<and> d < e}"
proof (induction sch arbitrary: acc)
  case Nil
  then show ?case by simp
next
  case (Cons x sch)
  obtain n st e where x: "x = (n, st, e)" by (cases x)
  from Cons.prems x obtain ev where ev: "map_of evs n = Some ev"
    by (auto split: option.splits)
  let ?acc' = "if deadline ev > 0 \<and> e > deadline ev then acc @ [(n, deadline ev, e)] else acc"
  from Cons.prems x ev have "check_deadlines_loop evs sch ?acc' = Inr missed" by simp
  from Cons.IH [OF this] show ?case using x ev by (auto split: if_splits)
qed

lemma computed_schedule_registered:
  assumes "distinct (map fst (events s))" and "schedule_events s = Some (s', Inr sch)"
  shows "fst ` set (schedule s') \<subseteq> fst ` set (events s')"
proof -
  from schedule_events_Inr [OF assms] obtain st
    where s': "s' = s\<lparr>schedule := sch\<rparr>" and st: "sched st = sch"
      and inv: "sim_inv (events s) (total_resources s) st" by blast
  from inv have "part_inv (events s) st" by (simp add: sim_inv_def)
  then have "fst ` set sch \<subseteq> fst ` set (events s)" by (auto simp: part_inv_def st)
  then show ?thesis by (simp add: s')
qed

text \<open>
  C9. On a scheduler whose scheduled names are all registered (as they are for every
  schedule that \<^verbatim>\<open>schedule_events\<close> computes), \<^verbatim>\<open>check_deadlines\<close> returns normally, and a
  triple \<open>(n, d, e)\<close> is reported exactly when task \<open>n\<close> is scheduled with end time \<open>e\<close>,
  its declared deadline is \<open>d\<close>, the deadline is set (\<open>0 < d\<close>) and \<open>e\<close> exceeds it; a
  task whose deadline is the sentinel \<open>-1\<close> is never reported.
\<close>

theorem check_deadlines_exact:
  assumes "fst ` set (schedule s) \<subseteq> fst ` set (events s)"
  shows "\<exists>missed. check_deadlines s = Inr missed
    \<and> (\<forall>n d e. (n, d, e) \<in> set missed \<longleftrightarrow>
          (\<exists>st ev. (n, st, e) \<in> set (schedule s) \<and> map_of (events s) n = Some ev
             \<and> deadline ev = d \<and> 0 < d \<and> d < e))
    \<and> (\<forall>n ev. map_of (events s) n = Some ev \<and> deadline ev = - 1 \<longrightarrow> n \<notin> fst ` set missed)"
proof -
  from check_deadlines_loop_total [OF assms] obtain missed
    where m: "check_deadlines s = Inr missed"
    unfolding check_deadlines_def by blast
  from check_deadlines_loop_set [OF m [unfolded check_deadlines_def]]
  have "set missed = {(n, d, e). \<exists>st ev. (n, st, e) \<in> set (schedule s)
      \<and> map_of (events s) n = Some ev \<and> deadline ev = d \<and> 0 < d \<and> d < e}"
    by simp
  then show ?thesis using m by force
qed

theorem check_deadlines_exact_witness:
  "fst ` set (schedule \<lparr>total_resources = 1,
       events = [(''T'', \<lparr>name = ''T'', duration = 7, dependencies = [],
                  resources_required = 1, priority = 1, deadline = 5\<rparr>),
                 (''U'', \<lparr>name = ''U'', duration = 9, dependencies = [],
                  resources_required = 1, priority = 1, deadline = - 1\<rparr>)],
       schedule = [(''T'', 0, 7), (''U'', 7, 16)]\<rparr>)
     \<subseteq> fst ` set (events \<lparr>total_resources = 1,
       events = [(''T'', \<lparr>name = ''T'', duration = 7, dependencies = [],
                  resources_required = 1, priority = 1, deadline = 5\<rparr>),
                 (''U'', \<lparr>name = ''U'', duration = 9, dependencies = [],
                  resources_required = 1, priority = 1, deadline = - 1\<rparr>)],
       schedule = [(''T'', 0, 7), (''U'', 7, 16)]\<rparr>)
   \<and> check_deadlines \<lparr>total_resources = 1,
       events = [(''T'', \<lparr>name = ''T'', duration = 7, dependencies = [],
                  resources_required = 1, priority = 1, deadline = 5\<rparr>),
                 (''U'', \<lparr>name = ''U'', duration = 9, dependencies = [],
                  resources_required = 1, priority = 1, deadline = - 1\<rparr>)],
       schedule = [(''T'', 0, 7), (''U'', 7, 16)]\<rparr> = Inr [(''T'', 5, 7)]"
  using check_deadlines_exact [of "\<lparr>total_resources = 1,
       events = [(''T'', \<lparr>name = ''T'', duration = 7, dependencies = [],
                  resources_required = 1, priority = 1, deadline = 5\<rparr>),
                 (''U'', \<lparr>name = ''U'', duration = 9, dependencies = [],
                  resources_required = 1, priority = 1, deadline = - 1\<rparr>)],
       schedule = [(''T'', 0, 7), (''U'', 7, 16)]\<rparr>"]
  by (simp add: check_deadlines_def)

text \<open>
  C10. Every non-positive deadline acts as "no deadline": a registered task whose deadline
  field is \<open>0\<close> or negative is never among the reported triples, whatever its end time.
\<close>

theorem check_deadlines_nonpositive:
  assumes "check_deadlines s = Inr missed"
    and "map_of (events s) n = Some ev"
    and "deadline ev \<le> 0"
  shows "n \<notin> fst ` set missed"
proof
  assume "n \<in> fst ` set missed"
  then obtain d e where "(n, d, e) \<in> set missed" by force
  with check_deadlines_loop_set [OF assms(1) [unfolded check_deadlines_def]] assms(2)
  have "0 < deadline ev" by auto
  with assms(3) show False by simp
qed

theorem check_deadlines_nonpositive_witness:
  "check_deadlines \<lparr>total_resources = 1,
       events = [(''Z'', \<lparr>name = ''Z'', duration = 4, dependencies = [],
                  resources_required = 1, priority = 1, deadline = 0\<rparr>)],
       schedule = [(''Z'', 0, 4)]\<rparr> = Inr []
   \<and> map_of (events \<lparr>total_resources = 1,
       events = [(''Z'', \<lparr>name = ''Z'', duration = 4, dependencies = [],
                  resources_required = 1, priority = 1, deadline = 0\<rparr>)],
       schedule = [(''Z'', 0, 4)]\<rparr>) ''Z''
     = Some \<lparr>name = ''Z'', duration = 4, dependencies = [],
                  resources_required = 1, priority = 1, deadline = 0\<rparr>
   \<and> deadline \<lparr>name = ''Z'', duration = 4, dependencies = [],
                  resources_required = 1, priority = 1, deadline = 0\<rparr> \<le> 0
   \<and> ''Z'' \<notin> fst ` set ([] :: (string \<times> int \<times> int) list)"
  using check_deadlines_nonpositive [of "\<lparr>total_resources = 1,
       events = [(''Z'', \<lparr>name = ''Z'', duration = 4, dependencies = [],
                  resources_required = 1, priority = 1, deadline = 0\<rparr>)],
       schedule = [(''Z'', 0, 4)]\<rparr>" "[]" "''Z''"
      "\<lparr>name = ''Z'', duration = 4, dependencies = [],
                  resources_required = 1, priority = 1, deadline = 0\<rparr>"]
  by (simp add: check_deadlines_def)


end
